theory Spec2Isabelle
  imports Complex_Main
begin

section \<open>Values of the Eigen library\<close>

text \<open>
  The header \<^verbatim>\<open>src/ui/bounding_cage.h\<close> stores geometry in Eigen matrices of
  \<^verbatim>\<open>double\<close>. A \<^verbatim>\<open>double\<close> is modelled as a \<^typ>\<open>real\<close>: the model is about
  the exact arithmetic the code approximates, and rounding, infinities and NaN are outside it.

  Fixed-size Eigen types are tuples; a matrix with a dynamic number of rows is the list of its
  rows, so its number of rows is the length of the list. The model follows the build with
  assertions: a read, a write or a block outside a matrix is an error.

  The list of rows of a matrix without rows says nothing about its columns. The two mesh
  buffers of the cage are read through \<^verbatim>\<open>block\<close>, whose range check also looks at the
  number of columns, so they are kept as a \<open>Matrix\<close>: the rows together with the
  number of columns.
\<close>

type_synonym RowVector3d = "real \<times> real \<times> real"
type_synonym RowVector2d = "real \<times> real"
type_synonym Matrix3d = "RowVector3d \<times> RowVector3d \<times> RowVector3d"
type_synonym MatrixXd = "real list list"
type_synonym MatrixXi = "int list list"
type_synonym VectorXi = "int list"

record 'a Matrix =
  ncols :: nat
  row_list :: "'a list list"

text \<open>Every way the modelled code can stop without a result.\<close>

datatype error =
    NullDereference
  | DanglingPointer
  | IndexOutOfRange
  | SizeMismatch
  | AssertionFailed
  | OutOfFuel

definition and_then :: "error + 'a \<Rightarrow> ('a \<Rightarrow> error + 'b) \<Rightarrow> error + 'b" where
  "and_then r f = (case r of Inl e \<Rightarrow> Inl e | Inr x \<Rightarrow> f x)"

fun vadd :: "RowVector3d \<Rightarrow> RowVector3d \<Rightarrow> RowVector3d" where
  "vadd (a, b, c) (x, y, z) = (a + x, b + y, c + z)"

fun smul :: "real \<Rightarrow> RowVector3d \<Rightarrow> RowVector3d" where
  "smul k (x, y, z) = (k * x, k * y, k * z)"

text \<open>\<^verbatim>\<open>m.row(i)\<close> of a \<^verbatim>\<open>Matrix3d\<close>; the code only passes the literals 0, 1 and 2.\<close>

fun row :: "Matrix3d \<Rightarrow> nat \<Rightarrow> RowVector3d" where
  "row (r0, r1, r2) i = (if i = 0 then r0 else if i = 1 then r1 else r2)"

fun as_row :: "RowVector3d \<Rightarrow> real list" where
  "as_row (x, y, z) = [x, y, z]"

text \<open>\<^verbatim>\<open>v.transpose()\<close> of a row vector: a 3x1 block, one row per coefficient.\<close>

fun transpose_row :: "RowVector3d \<Rightarrow> MatrixXd" where
  "transpose_row (x, y, z) = [[x], [y], [z]]"

fun as_rows :: "Matrix3d \<Rightarrow> MatrixXd" where
  "as_rows (r0, r1, r2) = [as_row r0, as_row r1, as_row r2]"

definition rows :: "'a list list \<Rightarrow> nat" where
  "rows m = length m"

text \<open>\<^verbatim>\<open>m(i, j)\<close>: reading outside the matrix is an error of the model.\<close>

definition coeff :: "'a list list \<Rightarrow> nat \<Rightarrow> nat \<Rightarrow> error + 'a" where
  "coeff m i j =
     (if i < length m \<and> j < length (m ! i) then Inr (m ! i ! j) else Inl IndexOutOfRange)"

text \<open>\<^verbatim>\<open>m(i, j) = v\<close>.\<close>

definition set_coeff :: "'a list list \<Rightarrow> nat \<Rightarrow> nat \<Rightarrow> 'a \<Rightarrow> error + 'a list list" where
  "set_coeff m i j v =
     (if i < length m \<and> j < length (m ! i) then Inr (m[i := (m ! i)[j := v]])
      else Inl IndexOutOfRange)"

text \<open>\<^verbatim>\<open>m.setZero()\<close>: every coefficient becomes zero, the size stays.\<close>

definition setZero :: "MatrixXd \<Rightarrow> MatrixXd" where
  "setZero m = map (map (\<lambda>_. 0)) m"

text \<open>
  \<^verbatim>\<open>m.block<R, C>(r0, c0) = b\<close>: the block \<open>b\<close> overwrites the coefficients from row \<open>r0\<close>,
  column \<open>c0\<close> on. A block that does not fit into the matrix is out of range.
\<close>

definition set_row_segment :: "'a list \<Rightarrow> nat \<Rightarrow> 'a list \<Rightarrow> error + 'a list" where
  "set_row_segment r c0 b =
     (if c0 + length b \<le> length r then Inr (take c0 r @ b @ drop (c0 + length b) r)
      else Inl IndexOutOfRange)"

fun set_block :: "'a list list \<Rightarrow> nat \<Rightarrow> nat \<Rightarrow> 'a list list \<Rightarrow> error + 'a list list" where
  "set_block m r0 c0 [] = Inr m"
| "set_block m r0 c0 (b # bs) =
     (if r0 < length m
      then (case set_row_segment (m ! r0) c0 b of
              Inl e \<Rightarrow> Inl e
            | Inr r \<Rightarrow> set_block (m[r0 := r]) (Suc r0) c0 bs)
      else Inl IndexOutOfRange)"

text \<open>\<^verbatim>\<open>m.resize(0, 0)\<close>, and a default-constructed dynamic matrix: no rows, no columns.\<close>

definition Matrix_empty :: "'a Matrix" where
  "Matrix_empty = \<lparr>ncols = 0, row_list = []\<rparr>"

text \<open>
  \<^verbatim>\<open>m.block(startRow, startCol, blockRows, blockCols)\<close> read as a matrix. The number of rows
  is an \<^verbatim>\<open>int\<close> of the caller. Eigen's \<^verbatim>\<open>Block\<close> constructor asserts
  \<^verbatim>\<open>startRow >= 0 && blockRows >= 0 && startRow <= xpr.rows() - blockRows &&
  startCol >= 0 && blockCols >= 0 && startCol <= xpr.cols() - blockCols\<close>,
  also for a block without rows.
\<close>

definition block :: "'a Matrix \<Rightarrow> nat \<Rightarrow> nat \<Rightarrow> int \<Rightarrow> nat \<Rightarrow> error + 'a Matrix" where
  "block m startRow startCol blockRows blockCols =
     (if 0 \<le> blockRows \<and> startRow + nat blockRows \<le> length (row_list m) \<and>
         startCol + blockCols \<le> ncols m
      then Inr \<lparr>ncols = blockCols,
                row_list = map (\<lambda>r. take blockCols (drop startCol r))
                             (take (nat blockRows) (drop startRow (row_list m)))\<rparr>
      else Inl IndexOutOfRange)"

text \<open>A default-constructed \<^verbatim>\<open>Eigen::MatrixX4d\<close> (dynamic rows, four columns) has no rows.\<close>

definition MatrixX4d_default :: MatrixXd where
  "MatrixX4d_default = []"

text \<open>A \<^verbatim>\<open>Matrix4d\<close> with all coefficients zero.\<close>

definition Matrix4d_zero :: MatrixXd where
  "Matrix4d_zero = replicate 4 (replicate 4 0)"

text \<open>Returning a dynamic matrix where a \<^verbatim>\<open>Matrix4d\<close> is expected needs four rows of four.\<close>

definition as_Matrix4d :: "MatrixXd \<Rightarrow> error + MatrixXd" where
  "as_Matrix4d m =
     (if length m = 4 \<and> list_all (\<lambda>r. length r = 4) m then Inr m else Inl SizeMismatch)"

definition dot :: "real list \<Rightarrow> real list \<Rightarrow> real" where
  "dot a b = sum_list (map2 (*) a b)"

text \<open>The product of a matrix with a column vector.\<close>

definition mat_vec :: "MatrixXd \<Rightarrow> real list \<Rightarrow> real list" where
  "mat_vec m v = map (\<lambda>r. dot r v) m"

section \<open>Objects and pointers\<close>

text \<open>
  Cells and keyframes are shared objects reached through \<^verbatim>\<open>std::shared_ptr\<close> and
  \<^verbatim>\<open>std::weak_ptr\<close>. An object is a slot of an arena (a list), its address the index of the
  slot; a pointer is an optional address, \<^const>\<open>None\<close> the null pointer. Objects are never
  taken out of the arena: what the reference counts of callers' iterators keep alive is
  outside the model.
\<close>

type_synonym addr = nat

record KeyFrame =
  orientation :: Matrix3d
  center :: RowVector3d
  vertices_2d :: MatrixXd
  mesh_vertex_indices :: VectorXi
  index :: real
  kf_cells :: "addr option \<times> addr option"

record Cell =
  left_child :: "addr option"
  right_child :: "addr option"
  next_cell :: "addr option"
  prev_cell :: "addr option"
  left_keyframe :: "addr option"
  right_keyframe :: "addr option"
  cell_V :: MatrixXd
  cell_F :: MatrixXi
  mesh_face_indexes :: VectorXi

text \<open>
  The fields of \<^verbatim>\<open>BoundingCage\<close> (\<^verbatim>\<open>cells.head\<close> and \<^verbatim>\<open>cells.tail\<close> of the nested
  \<^verbatim>\<open>Cells\<close> object included), together with the two arenas its pointers point into.
\<close>

record BoundingCage =
  SV :: MatrixXd
  SV_smooth :: MatrixXd
  root :: "addr option"
  cells_head :: "addr option"
  cells_tail :: "addr option"
  CV :: "real Matrix"
  CF :: "int Matrix"
  num_mesh_vertices :: int
  num_mesh_faces :: int
  cell_heap :: "Cell list"
  keyframe_heap :: "KeyFrame list"

text \<open>\<^verbatim>\<open>p->\<close> through a shared pointer.\<close>

definition deref_cell :: "BoundingCage \<Rightarrow> addr option \<Rightarrow> error + Cell" where
  "deref_cell s p =
     (case p of
        None \<Rightarrow> Inl NullDereference
      | Some a \<Rightarrow> if a < length (cell_heap s) then Inr (cell_heap s ! a) else Inl DanglingPointer)"

definition deref_keyframe :: "BoundingCage \<Rightarrow> addr option \<Rightarrow> error + KeyFrame" where
  "deref_keyframe s p =
     (case p of
        None \<Rightarrow> Inl NullDereference
      | Some a \<Rightarrow>
          if a < length (keyframe_heap s) then Inr (keyframe_heap s ! a) else Inl DanglingPointer)"

text \<open>\<^verbatim>\<open>w.lock()\<close> of a weak pointer: the cell if it still exists, null otherwise.\<close>

definition lock :: "BoundingCage \<Rightarrow> addr option \<Rightarrow> addr option" where
  "lock s w =
     (case w of
        None \<Rightarrow> None
      | Some a \<Rightarrow> if a < length (cell_heap s) then Some a else None)"

section \<open>KeyFrame\<close>

definition in_bounding_cage :: "KeyFrame \<Rightarrow> bool" where
  "in_bounding_cage kf = (length (mesh_vertex_indices kf) \<noteq> 0)"

definition normal :: "KeyFrame \<Rightarrow> RowVector3d" where
  "normal kf = row (orientation kf) 2"

definition up :: "KeyFrame \<Rightarrow> RowVector3d" where
  "up kf = row (orientation kf) 1"

definition right :: "KeyFrame \<Rightarrow> RowVector3d" where
  "right kf = row (orientation kf) 0"

text \<open>
  \<^verbatim>\<open>KeyFrame::vertices_3d\<close>: the loop over the rows of \<^verbatim>\<open>_vertices_2d\<close>, from row \<open>i\<close> with
  \<open>n\<close> rows to go; row \<open>i\<close> of the result is
  \<^verbatim>\<open>_center + _vertices_2d(i, 0) * _orientation.row(0) + _vertices_2d(i, 1) * _orientation.row(1)\<close>.
\<close>

fun vertices_3d_from :: "KeyFrame \<Rightarrow> nat \<Rightarrow> nat \<Rightarrow> error + MatrixXd" where
  "vertices_3d_from kf i 0 = Inr []"
| "vertices_3d_from kf i (Suc n) =
     and_then (coeff (vertices_2d kf) i 0) (\<lambda>x.
     and_then (coeff (vertices_2d kf) i 1) (\<lambda>y.
     and_then (vertices_3d_from kf (Suc i) n) (\<lambda>rest.
       Inr (as_row (vadd (vadd (center kf) (smul x (row (orientation kf) 0)))
                         (smul y (row (orientation kf) 1))) # rest))))"

definition vertices_3d :: "KeyFrame \<Rightarrow> error + MatrixXd" where
  "vertices_3d kf = vertices_3d_from kf 0 (rows (vertices_2d kf))"

text \<open>
  \<^verbatim>\<open>KeyFrame::transform\<close>, its statements after the declaration of the local \<^verbatim>\<open>ret\<close>, run
  on a given initial value of \<^verbatim>\<open>ret\<close>:
  \<^verbatim>\<open>ret.setZero(); ret.block<3, 3>(0, 0) = _orientation;
  ret.block<3, 1>(0, 3) = _center.transpose(); ret(3, 3) = 1.0; return ret;\<close>
\<close>

definition transform_on :: "MatrixXd \<Rightarrow> KeyFrame \<Rightarrow> error + MatrixXd" where
  "transform_on ret kf =
     and_then (set_block (setZero ret) 0 0 (as_rows (orientation kf))) (\<lambda>r1.
     and_then (set_block r1 0 3 (transpose_row (center kf))) (\<lambda>r2.
     and_then (set_coeff r2 3 3 1) (\<lambda>r3.
       as_Matrix4d r3)))"

text \<open>
  The source declares the local as \<^verbatim>\<open>Eigen::MatrixX4d ret;\<close>, a matrix with a dynamic number
  of rows that starts with none, although the function returns an \<^verbatim>\<open>Eigen::Matrix4d\<close>.
\<close>

definition transform :: "KeyFrame \<Rightarrow> error + MatrixXd" where
  "transform kf = transform_on MatrixX4d_default kf"

section \<open>Iterators\<close>

datatype CellIterator = CellIterator (cell: "addr option")

datatype KeyFrameIterator = KeyFrameIterator (keyframe: "addr option")

text \<open>\<^verbatim>\<open>CellIterator::operator++\<close> and \<^verbatim>\<open>operator--\<close>: guarded by \<^verbatim>\<open>if (cell)\<close>.\<close>

definition CellIterator_incr :: "BoundingCage \<Rightarrow> CellIterator \<Rightarrow> error + CellIterator" where
  "CellIterator_incr s it =
     (if cell it \<noteq> None
      then and_then (deref_cell s (cell it)) (\<lambda>c. Inr (CellIterator (next_cell c)))
      else Inr it)"

definition CellIterator_decr :: "BoundingCage \<Rightarrow> CellIterator \<Rightarrow> error + CellIterator" where
  "CellIterator_decr s it =
     (if cell it \<noteq> None
      then and_then (deref_cell s (cell it)) (\<lambda>c. Inr (CellIterator (prev_cell c)))
      else Inr it)"

definition Cells_begin :: "BoundingCage \<Rightarrow> CellIterator" where
  "Cells_begin s = CellIterator (cells_head s)"

definition Cells_end :: "BoundingCage \<Rightarrow> CellIterator" where
  "Cells_end s = CellIterator None"

definition Cells_rbegin :: "BoundingCage \<Rightarrow> CellIterator" where
  "Cells_rbegin s = CellIterator (cells_tail s)"

definition Cells_rend :: "BoundingCage \<Rightarrow> CellIterator" where
  "Cells_rend s = CellIterator None"

text \<open>
  \<^verbatim>\<open>KeyFrameIterator::operator++\<close>: the first statement reads \<^verbatim>\<open>keyframe->_cells[1]\<close>, before
  the test \<^verbatim>\<open>if (keyframe && right_cell)\<close>.
\<close>

definition KeyFrameIterator_incr ::
  "BoundingCage \<Rightarrow> KeyFrameIterator \<Rightarrow> error + KeyFrameIterator" where
  "KeyFrameIterator_incr s it =
     and_then (deref_keyframe s (keyframe it)) (\<lambda>kf.
       let right_cell = lock s (snd (kf_cells kf)) in
       if keyframe it \<noteq> None \<and> right_cell \<noteq> None
       then and_then (deref_cell s right_cell) (\<lambda>c. Inr (KeyFrameIterator (right_keyframe c)))
       else if right_cell = None then Inr (KeyFrameIterator None)
       else Inr it)"

definition KeyFrameIterator_decr ::
  "BoundingCage \<Rightarrow> KeyFrameIterator \<Rightarrow> error + KeyFrameIterator" where
  "KeyFrameIterator_decr s it =
     and_then (deref_keyframe s (keyframe it)) (\<lambda>kf.
       let left_cell = lock s (fst (kf_cells kf)) in
       if keyframe it \<noteq> None \<and> left_cell \<noteq> None
       then and_then (deref_cell s left_cell) (\<lambda>c. Inr (KeyFrameIterator (left_keyframe c)))
       else if left_cell = None then Inr (KeyFrameIterator None)
       else Inr it)"

definition KeyFrames_begin :: "BoundingCage \<Rightarrow> error + KeyFrameIterator" where
  "KeyFrames_begin s =
     (if cells_head s \<noteq> None
      then and_then (deref_cell s (cells_head s)) (\<lambda>c. Inr (KeyFrameIterator (left_keyframe c)))
      else Inr (KeyFrameIterator None))"

definition KeyFrames_end :: "BoundingCage \<Rightarrow> KeyFrameIterator" where
  "KeyFrames_end s = KeyFrameIterator None"

definition KeyFrames_rbegin :: "BoundingCage \<Rightarrow> error + KeyFrameIterator" where
  "KeyFrames_rbegin s =
     (if cells_tail s \<noteq> None
      then and_then (deref_cell s (cells_tail s)) (\<lambda>c. Inr (KeyFrameIterator (right_keyframe c)))
      else Inr (KeyFrameIterator None))"

definition KeyFrames_rend :: "BoundingCage \<Rightarrow> KeyFrameIterator" where
  "KeyFrames_rend s = KeyFrameIterator None"

section \<open>BoundingCage\<close>

text \<open>\<^verbatim>\<open>Cell::min_index\<close> and \<^verbatim>\<open>Cell::max_index\<close>, called through a pointer to the cell.\<close>

definition Cell_min_index :: "BoundingCage \<Rightarrow> addr option \<Rightarrow> error + real" where
  "Cell_min_index s p =
     and_then (deref_cell s p) (\<lambda>c.
     and_then (deref_keyframe s (left_keyframe c)) (\<lambda>kf. Inr (index kf)))"

definition Cell_max_index :: "BoundingCage \<Rightarrow> addr option \<Rightarrow> error + real" where
  "Cell_max_index s p =
     and_then (deref_cell s p) (\<lambda>c.
     and_then (deref_keyframe s (right_keyframe c)) (\<lambda>kf. Inr (index kf)))"

text \<open>
  \<^verbatim>\<open>BoundingCage::min_index\<close>: 0.0 without a root; otherwise
  \<^verbatim>\<open>assert(root->min_index() == cells.head->min_index())\<close> and then the root's bound.
\<close>

definition min_index :: "BoundingCage \<Rightarrow> error + real" where
  "min_index s =
     (if root s = None then Inr 0
      else and_then (Cell_min_index s (root s)) (\<lambda>a.
           and_then (Cell_min_index s (cells_head s)) (\<lambda>b.
             if a = b then Cell_min_index s (root s) else Inl AssertionFailed)))"

definition max_index :: "BoundingCage \<Rightarrow> error + real" where
  "max_index s =
     (if root s = None then Inr 0
      else and_then (Cell_max_index s (root s)) (\<lambda>a.
           and_then (Cell_max_index s (cells_tail s)) (\<lambda>b.
             if a = b then Cell_max_index s (root s) else Inl AssertionFailed)))"

text \<open>
  \<^verbatim>\<open>BoundingCage::clear\<close>; \<^verbatim>\<open>resize(0, 0)\<close> leaves a matrix without rows and without
  columns.
\<close>

definition clear :: "BoundingCage \<Rightarrow> BoundingCage" where
  "clear s =
     s\<lparr>root := None, cells_head := None, cells_tail := None,
       SV := [], SV_smooth := [], CV := Matrix_empty, CF := Matrix_empty,
       num_mesh_faces := 0, num_mesh_vertices := 0\<rparr>"

definition skeleton_vertices :: "BoundingCage \<Rightarrow> MatrixXd" where
  "skeleton_vertices s = SV s"

definition smooth_skeleton_vertices :: "BoundingCage \<Rightarrow> MatrixXd" where
  "smooth_skeleton_vertices s = SV_smooth s"

text \<open>\<^verbatim>\<open>CV.block(0, 0, num_mesh_vertices, 3)\<close> and \<^verbatim>\<open>CF.block(0, 0, num_mesh_faces, 3)\<close>.\<close>

definition vertices :: "BoundingCage \<Rightarrow> error + real Matrix" where
  "vertices s = block (CV s) 0 0 (num_mesh_vertices s) 3"

definition faces :: "BoundingCage \<Rightarrow> error + int Matrix" where
  "faces s = block (CF s) 0 0 (num_mesh_faces s) 3"

text \<open>A freshly constructed \<^verbatim>\<open>BoundingCage\<close>: empty matrices, null pointers, zero counts.\<close>

definition BoundingCage_new :: BoundingCage where
  "BoundingCage_new =
     \<lparr>SV = [], SV_smooth = [], root = None, cells_head = None, cells_tail = None,
      CV = Matrix_empty, CF = Matrix_empty, num_mesh_vertices = 0, num_mesh_faces = 0,
      cell_heap = [], keyframe_heap = []\<rparr>"

section \<open>Operations declared in the header without a body\<close>

text \<open>
  The header declares \<^verbatim>\<open>Cell::split\<close>, \<^verbatim>\<open>Cell::init_mesh\<close>, \<^verbatim>\<open>Cell::make_cell\<close>, the
  \<^verbatim>\<open>KeyFrame\<close> constructors, the two validators, \<^verbatim>\<open>KeyFrame::move_point_2d\<close>,
  \<^verbatim>\<open>BoundingCage::split_internal\<close>, both \<^verbatim>\<open>BoundingCage::split\<close>,
  \<^verbatim>\<open>set_skeleton_vertices\<close> and \<^verbatim>\<open>keyframe_for_index\<close>; their bodies are in a file that
  is not part of the sources. They are modelled here from the specification of the cage.

  What the specification leaves to collaborators or leaves open is a parameter of the model:
  skeleton smoothing, the frames at the two ends, frame transport to an index, the
  triangulation that fills the mesh buffer and the per-object mesh slices, and the two
  validators of a polygon edit.
\<close>

type_synonym cell_mesh = "MatrixXd \<times> MatrixXi \<times> VectorXi"
type_synonym mesh_buffer = "real Matrix \<times> int Matrix \<times> int \<times> int"

record split_mesh =
  sm_buffer :: mesh_buffer
  sm_keyframe :: VectorXi
  sm_parent :: cell_mesh
  sm_left :: cell_mesh
  sm_right :: cell_mesh

record init_mesh =
  im_buffer :: mesh_buffer
  im_left_keyframe :: VectorXi
  im_right_keyframe :: VectorXi
  im_root :: cell_mesh

record collaborators =
  smooth :: "MatrixXd \<Rightarrow> nat \<Rightarrow> MatrixXd"
  end_frames :: "MatrixXd \<Rightarrow> (RowVector3d \<times> Matrix3d) \<times> (RowVector3d \<times> Matrix3d)"
  transport :: "KeyFrame \<Rightarrow> MatrixXd \<Rightarrow> real \<Rightarrow> RowVector3d \<times> Matrix3d"
  initial_mesh :: "KeyFrame \<Rightarrow> KeyFrame \<Rightarrow> init_mesh"
  mesh_of_split :: "BoundingCage \<Rightarrow> addr \<Rightarrow> addr \<Rightarrow> split_mesh"
  validate_points_2d :: "MatrixXd \<Rightarrow> bool"
  validate_cage :: "BoundingCage \<Rightarrow> addr \<Rightarrow> bool"

text \<open>
  The constructor \<^verbatim>\<open>Cell(left_kf, right_kf, prev, next, cage)\<close> of the header: the two
  keyframes and the two list links are set, the children are null and the mesh is empty.
\<close>

definition Cell_new :: "addr option \<Rightarrow> addr option \<Rightarrow> addr option \<Rightarrow> addr option \<Rightarrow> Cell" where
  "Cell_new left_kf right_kf prev nxt =
     \<lparr>left_child = None, right_child = None, next_cell = nxt, prev_cell = prev,
      left_keyframe = left_kf, right_keyframe = right_kf,
      cell_V = [], cell_F = [], mesh_face_indexes = []\<rparr>"

text \<open>
  Modelled from the spec: \<^verbatim>\<open>Cell::init_mesh\<close>, whose body is missing. A cell records the
  slice of the mesh it contributed; the slice itself comes from the triangulation.
\<close>

definition with_mesh :: "cell_mesh \<Rightarrow> Cell \<Rightarrow> Cell" where
  "with_mesh m c = c\<lparr>cell_V := fst m, cell_F := fst (snd m), mesh_face_indexes := snd (snd m)\<rparr>"

text \<open>
  Modelled from the spec: the write of the rebuilt global mesh buffer (vertex array, triangle
  array and the two counts), done by the missing \<^verbatim>\<open>init_mesh\<close> bodies.
\<close>

definition with_buffer :: "mesh_buffer \<Rightarrow> BoundingCage \<Rightarrow> BoundingCage" where
  "with_buffer b s =
     s\<lparr>CV := fst b, CF := fst (snd b), num_mesh_vertices := fst (snd (snd b)),
       num_mesh_faces := snd (snd (snd b))\<rparr>"

text \<open>
  Modelled from the spec: the explicit \<^verbatim>\<open>KeyFrame\<close> constructor, whose body is missing
  (\<open>explicit_frame(center, orientation)\<close> wraps the given axes). The new keyframe is detached:
  no mesh vertices, no bounding cells.
\<close>

definition KeyFrame_new :: "RowVector3d \<Rightarrow> Matrix3d \<Rightarrow> MatrixXd \<Rightarrow> real \<Rightarrow> KeyFrame" where
  "KeyFrame_new cen coord_frame pts idx =
     \<lparr>orientation = coord_frame, center = cen, vertices_2d = pts, mesh_vertex_indices = [],
      index = idx, kf_cells = (None, None)\<rparr>"

text \<open>
  Modelled from the spec: the interpolated construction of a keyframe, whose code is missing.
  The polygon is the per-vertex linear interpolation of the two polygons at the fractional
  position of the index between the two keyframes; centre and frame come from transporting
  the left keyframe's frame.
\<close>

definition lerp_polygon :: "MatrixXd \<Rightarrow> MatrixXd \<Rightarrow> real \<Rightarrow> MatrixXd" where
  "lerp_polygon a b t = map2 (map2 (\<lambda>x y. (1 - t) * x + t * y)) a b"

definition interpolated ::
  "collaborators \<Rightarrow> BoundingCage \<Rightarrow> KeyFrame \<Rightarrow> KeyFrame \<Rightarrow> real \<Rightarrow> KeyFrame" where
  "interpolated P s l r idx =
     (let (cen, frame) = transport P l (SV_smooth s) idx;
          t = (idx - index l) / (index r - index l)
      in KeyFrame_new cen frame (lerp_polygon (vertices_2d l) (vertices_2d r) t) idx)"

text \<open>A write through a pointer that is skipped when the pointer is null.\<close>

definition upd_cell :: "addr option \<Rightarrow> (Cell \<Rightarrow> Cell) \<Rightarrow> Cell list \<Rightarrow> Cell list" where
  "upd_cell p f h = (case p of None \<Rightarrow> h | Some a \<Rightarrow> h[a := f (h ! a)])"

definition upd_keyframe ::
  "addr option \<Rightarrow> (KeyFrame \<Rightarrow> KeyFrame) \<Rightarrow> KeyFrame list \<Rightarrow> KeyFrame list" where
  "upd_keyframe p f h = (case p of None \<Rightarrow> h | Some a \<Rightarrow> h[a := f (h ! a)])"

text \<open>
  Modelled from the spec: step 2 of \<^verbatim>\<open>Cell::split\<close>, whose body is missing, for the leaf at
  address \<open>c\<close> and the keyframe at address \<open>k\<close>. Two new cells \<open>(left_keyframe, keyframe)\<close> and
  \<open>(keyframe, right_keyframe)\<close> are created and threaded into the leaf list in place of this
  cell (its prev and next links are spliced to the new left and right child, and so are the
  head and the tail of the list where this cell was one), this cell gets the two children,
  the mesh slices are rebuilt, and the back-references of the installed keyframe point at
  the two new cells. A keyframe references the cell on its left and the cell on its right,
  so the right reference of this cell's left keyframe and the left reference of its right
  keyframe move to the new cells too.
\<close>

definition split_leaf :: "collaborators \<Rightarrow> BoundingCage \<Rightarrow> addr \<Rightarrow> addr \<Rightarrow> BoundingCage" where
  "split_leaf P s c k =
     (let this = cell_heap s ! c;
          l = length (cell_heap s);
          r = Suc l;
          m = mesh_of_split P s c k;
          lc = with_mesh (sm_left m)
                 (Cell_new (left_keyframe this) (Some k) (prev_cell this) (Some r));
          rc = with_mesh (sm_right m)
                 (Cell_new (Some k) (right_keyframe this) (Some l) (next_cell this));
          cells1 = cell_heap s @ [lc, rc];
          cells2 = upd_cell (prev_cell this) (\<lambda>p. p\<lparr>next_cell := Some l\<rparr>) cells1;
          cells3 = upd_cell (next_cell this) (\<lambda>n. n\<lparr>prev_cell := Some r\<rparr>) cells2;
          cells4 = upd_cell (Some c)
                     (\<lambda>x. with_mesh (sm_parent m) (x\<lparr>left_child := Some l, right_child := Some r\<rparr>))
                     cells3;
          kfs1 = upd_keyframe (Some k)
                   (\<lambda>x. x\<lparr>kf_cells := (Some l, Some r), mesh_vertex_indices := sm_keyframe m\<rparr>)
                   (keyframe_heap s);
          kfs2 = upd_keyframe (left_keyframe this)
                   (\<lambda>x. x\<lparr>kf_cells := (fst (kf_cells x), Some l)\<rparr>) kfs1;
          kfs3 = upd_keyframe (right_keyframe this)
                   (\<lambda>x. x\<lparr>kf_cells := (Some r, snd (kf_cells x))\<rparr>) kfs2
      in with_buffer (sm_buffer m)
           (s\<lparr>cells_head := (if cells_head s = Some c then Some l else cells_head s),
              cells_tail := (if cells_tail s = Some c then Some r else cells_tail s),
              cell_heap := cells4, keyframe_heap := kfs3\<rparr>))"

type_synonym split_result = "error + BoundingCage \<times> addr option"

text \<open>
  Modelled from the spec: \<^verbatim>\<open>Cell::split\<close>, whose body is missing; \<open>recurse\<close> stands for
  the recursive call. The result is the new state with the installed keyframe, or the
  unchanged state with the null pointer.
  \<^enum> Reject if the index of the keyframe does not lie strictly inside
    \<open>(left.index, right.index)\<close> of this cell: no change, failure.
  \<^enum> A leaf (a cell without children) is split as \<^const>\<open>split_leaf\<close> says.
  \<^enum> An internal cell recurses into the child whose index range contains the index; if
    neither does, the operation fails.
\<close>

definition Cell_split_step ::
  "collaborators \<Rightarrow> (BoundingCage \<Rightarrow> addr option \<Rightarrow> addr option \<Rightarrow> split_result) \<Rightarrow>
   BoundingCage \<Rightarrow> addr option \<Rightarrow> addr option \<Rightarrow> split_result" where
  "Cell_split_step P recurse s c key_frame =
     and_then (deref_cell s c) (\<lambda>this.
     and_then (deref_keyframe s key_frame) (\<lambda>kf.
     and_then (Cell_min_index s c) (\<lambda>lo.
     and_then (Cell_max_index s c) (\<lambda>hi.
       if \<not> (lo < index kf \<and> index kf < hi) then Inr (s, None)
       else if left_child this = None \<and> right_child this = None
       then Inr (split_leaf P s (the c) (the key_frame), key_frame)
       else
         and_then (if left_child this = None then Inr False
                   else and_then (Cell_min_index s (left_child this)) (\<lambda>a.
                        and_then (Cell_max_index s (left_child this)) (\<lambda>b.
                          Inr (a \<le> index kf \<and> index kf \<le> b)))) (\<lambda>in_left.
         if in_left then recurse s (left_child this) key_frame
         else
           and_then (if right_child this = None then Inr False
                     else and_then (Cell_min_index s (right_child this)) (\<lambda>a.
                          and_then (Cell_max_index s (right_child this)) (\<lambda>b.
                            Inr (a \<le> index kf \<and> index kf \<le> b)))) (\<lambda>in_right.
           if in_right then recurse s (right_child this) key_frame
           else Inr (s, None)))))))"

text \<open>
  Modelled from the spec: the recursion of \<^verbatim>\<open>Cell::split\<close>, whose body is missing. It
  follows child pointers, so it is bounded by fuel: each descent into a child takes one
  unit, and a descent without fuel is \<^const>\<open>OutOfFuel\<close>.
\<close>

primrec Cell_split ::
  "nat \<Rightarrow> collaborators \<Rightarrow> BoundingCage \<Rightarrow> addr option \<Rightarrow> addr option \<Rightarrow> split_result" where
  "Cell_split 0 P = Cell_split_step P (\<lambda>s c k. Inl OutOfFuel)"
| "Cell_split (Suc fuel) P = Cell_split_step P (Cell_split fuel P)"

text \<open>
  Modelled from the spec: \<^verbatim>\<open>BoundingCage::split_internal\<close>, whose body is missing: the
  core of both \<^verbatim>\<open>split\<close> methods, the call of \<^verbatim>\<open>Cell::split\<close> at the root. A cage without
  a root has no cell to split.
\<close>

definition split_internal ::
  "nat \<Rightarrow> collaborators \<Rightarrow> BoundingCage \<Rightarrow> addr option \<Rightarrow> split_result" where
  "split_internal fuel P s kf =
     (if root s = None then Inr (s, None) else Cell_split fuel P s (root s) kf)"

text \<open>
  Modelled from the spec: the search for the leaf cell that contains an index, along the
  leaf list from the cell \<open>p\<close> on; the code that does it is missing. One unit of fuel per
  cell visited.
\<close>

primrec find_cell :: "nat \<Rightarrow> BoundingCage \<Rightarrow> addr option \<Rightarrow> real \<Rightarrow> error + addr option" where
  "find_cell 0 s p idx = (if p = None then Inr None else Inl OutOfFuel)"
| "find_cell (Suc fuel) s p idx =
     (if p = None then Inr None
      else and_then (Cell_min_index s p) (\<lambda>lo.
           and_then (Cell_max_index s p) (\<lambda>hi.
             if lo \<le> idx \<and> idx \<le> hi then Inr p
             else and_then (deref_cell s p) (\<lambda>c. find_cell fuel s (next_cell c) idx))))"

text \<open>
  Modelled from the spec: \<^verbatim>\<open>BoundingCage::keyframe_for_index\<close>, whose body is missing.
  Outside \<open>[min_index, max_index]\<close>, or without a root, the result is the end iterator.
  At the index of a keyframe of the containing leaf the result is that keyframe; otherwise
  it is a new detached keyframe interpolated between the two keyframes of the leaf.
\<close>

definition keyframe_for_index ::
  "nat \<Rightarrow> collaborators \<Rightarrow> BoundingCage \<Rightarrow> real \<Rightarrow> error + BoundingCage \<times> KeyFrameIterator" where
  "keyframe_for_index fuel P s idx =
     (if root s = None then Inr (s, KeyFrames_end s)
      else and_then (min_index s) (\<lambda>lo.
           and_then (max_index s) (\<lambda>hi.
             if idx < lo \<or> hi < idx then Inr (s, KeyFrames_end s)
             else and_then (find_cell fuel s (cells_head s) idx) (\<lambda>p.
               if p = None then Inr (s, KeyFrames_end s)
               else and_then (deref_cell s p) (\<lambda>c.
                    and_then (deref_keyframe s (left_keyframe c)) (\<lambda>l.
                    and_then (deref_keyframe s (right_keyframe c)) (\<lambda>r.
                      if idx = index l then Inr (s, KeyFrameIterator (left_keyframe c))
                      else if idx = index r then Inr (s, KeyFrameIterator (right_keyframe c))
                      else Inr (s\<lparr>keyframe_heap := keyframe_heap s @ [interpolated P s l r idx]\<rparr>,
                                KeyFrameIterator (Some (length (keyframe_heap s)))))))))))"

text \<open>
  Modelled from the spec: \<^verbatim>\<open>BoundingCage::split(KeyFrameIterator&)\<close>, whose body is
  missing: installs an already constructed keyframe at its stored index.
\<close>

definition split_iterator ::
  "nat \<Rightarrow> collaborators \<Rightarrow> BoundingCage \<Rightarrow> KeyFrameIterator \<Rightarrow>
   error + BoundingCage \<times> KeyFrameIterator" where
  "split_iterator fuel P s it =
     and_then (split_internal fuel P s (keyframe it)) (\<lambda>(s', kf). Inr (s', KeyFrameIterator kf))"

text \<open>
  Modelled from the spec: \<^verbatim>\<open>BoundingCage::split(double)\<close>, whose body is missing: computes
  an interpolated keyframe at the index (through the containing leaf cell) and installs it
  through \<^verbatim>\<open>Cell::split\<close>; the result is an iterator to it, or the end iterator if the index
  is outside \<open>[min_index, max_index]\<close>.
\<close>

definition split ::
  "nat \<Rightarrow> collaborators \<Rightarrow> BoundingCage \<Rightarrow> real \<Rightarrow> error + BoundingCage \<times> KeyFrameIterator" where
  "split fuel P s idx =
     and_then (keyframe_for_index fuel P s idx) (\<lambda>(s', it).
       if it = KeyFrames_end s' then Inr (s', it) else split_iterator fuel P s' it)"

text \<open>
  Modelled from the spec: \<^verbatim>\<open>BoundingCage::set_skeleton_vertices\<close>, whose body is missing.
  Fewer than two points fail without a change. Otherwise the skeleton and its smoothed copy
  are stored, the two end keyframes (explicit frames, the polygon template, indices 0 and
  N - 1) and the root cell spanning them are constructed, the root is the only leaf, and the
  initial mesh is built.
\<close>

definition set_skeleton_vertices ::
  "collaborators \<Rightarrow> BoundingCage \<Rightarrow> MatrixXd \<Rightarrow> nat \<Rightarrow> MatrixXd \<Rightarrow> bool \<times> BoundingCage" where
  "set_skeleton_vertices P s new_SV smoothing_iters polygon_template =
     (if rows new_SV < 2 then (False, s)
      else
        let sm = smooth P new_SV smoothing_iters;
            ((cen_l, frame_l), (cen_r, frame_r)) = end_frames P sm;
            kl = length (keyframe_heap s);
            kr = Suc kl;
            c = length (cell_heap s);
            left_kf = KeyFrame_new cen_l frame_l polygon_template 0;
            right_kf = KeyFrame_new cen_r frame_r polygon_template (real (rows new_SV) - 1);
            m = initial_mesh P left_kf right_kf
        in (True,
            with_buffer (im_buffer m)
              (s\<lparr>SV := new_SV, SV_smooth := sm,
                 root := Some c, cells_head := Some c, cells_tail := Some c,
                 cell_heap := cell_heap s @
                   [with_mesh (im_root m) (Cell_new (Some kl) (Some kr) None None)],
                 keyframe_heap := keyframe_heap s @
                   [left_kf\<lparr>kf_cells := (None, Some c), mesh_vertex_indices := im_left_keyframe m\<rparr>,
                    right_kf\<lparr>kf_cells := (Some c, None),
                             mesh_vertex_indices := im_right_keyframe m\<rparr>]\<rparr>)))"

text \<open>
  Modelled from the spec: \<^verbatim>\<open>KeyFrame::move_point_2d\<close>, whose body is missing, on the
  keyframe at \<open>k\<close>. The candidate polygon has its \<open>i\<close>-th point replaced. With
  \<open>validate2d\<close> it is checked for self-intersection in local 2D coordinates before the
  commit, with \<open>validate_3d\<close> the moved keyframe is checked against its neighbours; a failed
  check leaves the state unchanged and reports failure. The result is the success flag and
  the state. An index that is not a row of the polygon is out of range.
\<close>

definition move_point_2d ::
  "collaborators \<Rightarrow> BoundingCage \<Rightarrow> addr option \<Rightarrow> int \<Rightarrow> RowVector2d \<Rightarrow> bool \<Rightarrow> bool \<Rightarrow>
   error + bool \<times> BoundingCage" where
  "move_point_2d P s k i newpos validate2d validate_3d =
     and_then (deref_keyframe s k) (\<lambda>kf.
       if i < 0 \<or> int (rows (vertices_2d kf)) \<le> i then Inl IndexOutOfRange
       else
         let candidate = (vertices_2d kf)[nat i := [fst newpos, snd newpos]];
             moved = s\<lparr>keyframe_heap := (keyframe_heap s)[the k := kf\<lparr>vertices_2d := candidate\<rparr>]\<rparr>
         in if validate2d \<and> \<not> validate_points_2d P candidate then Inr (False, s)
            else if validate_3d \<and> \<not> validate_cage P moved (the k) then Inr (False, s)
            else Inr (True, moved))"

section \<open>Histories of a cage\<close>

text \<open>
  The operations a caller has on a cage and its keyframes. Every state a cage can reach is
  the result of a list of them, run on the freshly constructed cage; an operation that
  stops with an error ends the run.
\<close>

datatype op =
    Set_skeleton_vertices MatrixXd nat MatrixXd
  | Split nat real
  | Split_iterator nat KeyFrameIterator
  | Keyframe_for_index nat real
  | Move_point_2d "addr option" int RowVector2d bool bool
  | Clear

fun apply_op :: "collaborators \<Rightarrow> BoundingCage \<Rightarrow> op \<Rightarrow> error + BoundingCage" where
  "apply_op P s (Set_skeleton_vertices sv n tmpl) = Inr (snd (set_skeleton_vertices P s sv n tmpl))"
| "apply_op P s (Split fuel idx) = and_then (split fuel P s idx) (\<lambda>r. Inr (fst r))"
| "apply_op P s (Split_iterator fuel it) = and_then (split_iterator fuel P s it) (\<lambda>r. Inr (fst r))"
| "apply_op P s (Keyframe_for_index fuel idx) =
     and_then (keyframe_for_index fuel P s idx) (\<lambda>r. Inr (fst r))"
| "apply_op P s (Move_point_2d k i newpos v2 v3) =
     and_then (move_point_2d P s k i newpos v2 v3) (\<lambda>r. Inr (snd r))"
| "apply_op P s Clear = Inr (clear s)"

fun run_from :: "collaborators \<Rightarrow> BoundingCage \<Rightarrow> op list \<Rightarrow> error + BoundingCage" where
  "run_from P s [] = Inr s"
| "run_from P s (x # xs) = and_then (apply_op P s x) (\<lambda>s'. run_from P s' xs)"

definition run :: "collaborators \<Rightarrow> op list \<Rightarrow> error + BoundingCage" where
  "run P ops = run_from P BoundingCage_new ops"

text \<open>
  The traversal of the leaf list as \<^verbatim>\<open>Bounding_Widget_3d::post_draw\<close> writes it,
  \<^verbatim>\<open>for (auto it = cells.begin(); it != cells.end(); it++) sorted_cells.push_back(it);\<close>,
  and its mirror image from \<^verbatim>\<open>rbegin()\<close> to \<^verbatim>\<open>rend()\<close> with \<^verbatim>\<open>it--\<close>. One unit of fuel per
  step: a list with a cycle never reaches the end.
\<close>

primrec collect_cells :: "nat \<Rightarrow> BoundingCage \<Rightarrow> CellIterator \<Rightarrow> error + CellIterator list" where
  "collect_cells 0 s it = (if it \<noteq> Cells_end s then Inl OutOfFuel else Inr [])"
| "collect_cells (Suc fuel) s it =
     (if it \<noteq> Cells_end s
      then and_then (CellIterator_incr s it) (\<lambda>it'.
           and_then (collect_cells fuel s it') (\<lambda>rest. Inr (it # rest)))
      else Inr [])"

primrec collect_cells_backward ::
  "nat \<Rightarrow> BoundingCage \<Rightarrow> CellIterator \<Rightarrow> error + CellIterator list" where
  "collect_cells_backward 0 s it = (if it \<noteq> Cells_rend s then Inl OutOfFuel else Inr [])"
| "collect_cells_backward (Suc fuel) s it =
     (if it \<noteq> Cells_rend s
      then and_then (CellIterator_decr s it) (\<lambda>it'.
           and_then (collect_cells_backward fuel s it') (\<lambda>rest. Inr (it # rest)))
      else Inr [])"

section \<open>The shape of a cage\<close>

text \<open>
  The invariant behind the ordering of the leaf list. The cells reachable from the root form
  a binary tree in the arena; a tree of addresses describes it, a leaf being a cell without
  children.
\<close>

datatype ctree = Leaf addr | Node addr ctree ctree

fun root_of :: "ctree \<Rightarrow> addr" where
  "root_of (Leaf a) = a"
| "root_of (Node a l r) = a"

fun nodes :: "ctree \<Rightarrow> addr list" where
  "nodes (Leaf a) = [a]"
| "nodes (Node a l r) = a # nodes l @ nodes r"

text \<open>The leaves from left to right.\<close>

fun leaves :: "ctree \<Rightarrow> addr list" where
  "leaves (Leaf a) = [a]"
| "leaves (Node a l r) = leaves l @ leaves r"

text \<open>The tree after the leaf \<open>c\<close> got the two new cells \<open>l\<close> and \<open>l + 1\<close> as children.\<close>

fun graft :: "ctree \<Rightarrow> addr \<Rightarrow> addr \<Rightarrow> ctree" where
  "graft (Leaf a) c l = (if a = c then Node a (Leaf l) (Leaf (Suc l)) else Leaf a)"
| "graft (Node a lt rt) c l = Node a (graft lt c l) (graft rt c l)"

text \<open>The child pointers of the cells in the arena \<open>h\<close> are those of the tree.\<close>

fun is_tree :: "Cell list \<Rightarrow> ctree \<Rightarrow> bool" where
  "is_tree h (Leaf a) = (left_child (h ! a) = None \<and> right_child (h ! a) = None)"
| "is_tree h (Node a l r) =
     (left_child (h ! a) = Some (root_of l) \<and> right_child (h ! a) = Some (root_of r) \<and>
      is_tree h l \<and> is_tree h r)"

text \<open>
  \<open>seg f p as q\<close>: starting at the pointer \<open>p\<close> and following the link \<open>f\<close>, one visits the
  cells \<open>as\<close> in this order and arrives at the pointer \<open>q\<close>.
\<close>

fun seg :: "(addr \<Rightarrow> addr option) \<Rightarrow> addr option \<Rightarrow> addr list \<Rightarrow> addr option \<Rightarrow> bool" where
  "seg f p [] q = (p = q)"
| "seg f p (a # as) q = (p = Some a \<and> seg f (f a) as q)"

definition nxt :: "Cell list \<Rightarrow> addr \<Rightarrow> addr option" where
  "nxt h a = next_cell (h ! a)"

definition prv :: "Cell list \<Rightarrow> addr \<Rightarrow> addr option" where
  "prv h a = prev_cell (h ! a)"

text \<open>A cell has two keyframes, and the index of the left one is strictly the smaller.\<close>

definition cell_ok :: "BoundingCage \<Rightarrow> addr \<Rightarrow> bool" where
  "cell_ok s c =
     (\<exists>l r. left_keyframe (cell_heap s ! c) = Some l \<and> right_keyframe (cell_heap s ! c) = Some r \<and>
            l < length (keyframe_heap s) \<and> r < length (keyframe_heap s) \<and>
            index (keyframe_heap s ! l) < index (keyframe_heap s ! r))"

text \<open>
  \<open>link h p cs q\<close>: the cells \<open>cs\<close> share their keyframes, from the keyframe \<open>p\<close> on the left
  of the first to the keyframe \<open>q\<close> on the right of the last: the right keyframe of a cell
  is the left keyframe of the next one.
\<close>

fun link :: "Cell list \<Rightarrow> addr option \<Rightarrow> addr list \<Rightarrow> addr option \<Rightarrow> bool" where
  "link h p [] q = (p = q)"
| "link h p (c # cs) q = (left_keyframe (h ! c) = p \<and> link h (right_keyframe (h ! c)) cs q)"

text \<open>
  A cage with the tree \<open>t\<close>: the root is the root of the tree, the cells of the tree are
  distinct objects of the arena, the leaf list runs through the leaves of the tree from the
  head forward and from the tail backward, every leaf is a proper cell, and the leaves share
  their keyframes from the left keyframe of the root to its right keyframe.
\<close>

definition cage_inv :: "BoundingCage \<Rightarrow> ctree \<Rightarrow> bool" where
  "cage_inv s t =
     (root s = Some (root_of t) \<and> is_tree (cell_heap s) t \<and> distinct (nodes t) \<and>
      (\<forall>a \<in> set (nodes t). a < length (cell_heap s)) \<and>
      seg (nxt (cell_heap s)) (cells_head s) (leaves t) None \<and>
      seg (prv (cell_heap s)) (cells_tail s) (rev (leaves t)) None \<and>
      (\<forall>c \<in> set (leaves t). cell_ok s c) \<and>
      link (cell_heap s) (left_keyframe (cell_heap s ! root_of t)) (leaves t)
        (right_keyframe (cell_heap s ! root_of t)))"

text \<open>A cage is empty (no root, no list) or has a tree.\<close>

definition cage_ok :: "BoundingCage \<Rightarrow> bool" where
  "cage_ok s =
     ((root s = None \<and> cells_head s = None \<and> cells_tail s = None) \<or> (\<exists>t. cage_inv s t))"

text \<open>
  \<open>splits_at P s kf c s' r\<close>: the state \<open>s'\<close> and the result \<open>r\<close> are those of the split of
  the leaf \<open>c\<close> by the keyframe \<open>kf\<close>, whose index is strictly between the indices of the
  keyframes of \<open>c\<close>.
\<close>

definition splits_at :: "collaborators \<Rightarrow> BoundingCage \<Rightarrow> addr option \<Rightarrow> addr \<Rightarrow>
    BoundingCage \<Rightarrow> addr option \<Rightarrow> bool" where
  "splits_at P s kf c s' r =
     (\<exists>k L R. kf = Some k \<and> r = Some k \<and> k < length (keyframe_heap s) \<and>
        left_keyframe (cell_heap s ! c) = Some L \<and> right_keyframe (cell_heap s ! c) = Some R \<and>
        index (keyframe_heap s ! L) < index (keyframe_heap s ! k) \<and>
        index (keyframe_heap s ! k) < index (keyframe_heap s ! R) \<and>
        s' = split_leaf P s c k)"

text \<open>The index of the keyframe behind a pointer.\<close>

definition kf_index :: "BoundingCage \<Rightarrow> addr option \<Rightarrow> real" where
  "kf_index s p = index (keyframe_heap s ! the p)"

section \<open>Example objects\<close>

text \<open>
  A keyframe whose frame is not symmetric: right = (0, 1, 0), up = (0, 0, 1),
  normal = (1, 0, 0), centred at (1, 2, 3), with a triangle as its polygon.
\<close>

definition kf_example :: KeyFrame where
  "kf_example =
     \<lparr>orientation = ((0, 1, 0), (0, 0, 1), (1, 0, 0)), center = (1, 2, 3),
      vertices_2d = [[1, 0], [0, 1], [2, 3]], mesh_vertex_indices = [],
      index = 0, kf_cells = (None, None)\<rparr>"

text \<open>
  A cage of one cell (address 0) between the keyframes at addresses 0 (index 0) and
  1 (index 4), as it stands after initialisation with five skeleton vertices, with a mesh
  of 8 vertices and 12 faces in its buffers.
\<close>

definition cage_example :: BoundingCage where
  "cage_example =
     \<lparr>SV = [[0, 0, 0], [1, 0, 0], [2, 0, 0], [3, 0, 0], [4, 0, 0]],
      SV_smooth = [[0, 0, 0], [1, 0, 0], [2, 0, 0], [3, 0, 0], [4, 0, 0]],
      root = Some 0, cells_head = Some 0, cells_tail = Some 0,
      CV = \<lparr>ncols = 3, row_list = replicate 8 [0, 0, 0]\<rparr>,
      CF = \<lparr>ncols = 3, row_list = replicate 12 [0, 0, 0]\<rparr>,
      num_mesh_vertices = 8, num_mesh_faces = 12,
      cell_heap =
        [\<lparr>left_child = None, right_child = None, next_cell = None, prev_cell = None,
          left_keyframe = Some 0, right_keyframe = Some 1,
          cell_V = [], cell_F = [], mesh_face_indexes = []\<rparr>],
      keyframe_heap =
        [kf_example\<lparr>index := 0, kf_cells := (None, Some 0)\<rparr>,
         kf_example\<lparr>index := 4, center := (5, 2, 3), kf_cells := (Some 0, None)\<rparr>]\<rparr>"

text \<open>
  Example collaborators. The 2D validator rejects a polygon in which two edges cross
  properly (each edge has the end points of the other strictly on its two sides); the
  mesh functions fill the buffers with as many rows as a four-sided polygon needs.
\<close>

definition orient2d :: "real list \<Rightarrow> real list \<Rightarrow> real list \<Rightarrow> real" where
  "orient2d a b c = (b ! 0 - a ! 0) * (c ! 1 - a ! 1) - (b ! 1 - a ! 1) * (c ! 0 - a ! 0)"

definition segments_cross :: "real list \<times> real list \<Rightarrow> real list \<times> real list \<Rightarrow> bool" where
  "segments_cross e f =
     (orient2d (fst e) (snd e) (fst f) * orient2d (fst e) (snd e) (snd f) < 0 \<and>
      orient2d (fst f) (snd f) (fst e) * orient2d (fst f) (snd f) (snd e) < 0)"

definition polygon_edges :: "MatrixXd \<Rightarrow> (real list \<times> real list) list" where
  "polygon_edges m = zip m (rotate1 m)"

definition self_intersects :: "MatrixXd \<Rightarrow> bool" where
  "self_intersects m =
     list_ex (\<lambda>e. list_ex (\<lambda>f. segments_cross e f) (polygon_edges m)) (polygon_edges m)"

definition P_example :: collaborators where
  "P_example =
     \<lparr>smooth = (\<lambda>m n. m),
      end_frames = (\<lambda>m. (((0, 0, 0), ((0, 1, 0), (0, 0, 1), (1, 0, 0))),
                          ((real (rows m) - 1, 0, 0), ((0, 1, 0), (0, 0, 1), (1, 0, 0))))),
      transport = (\<lambda>kf m idx. ((idx, 0, 0), orientation kf)),
      initial_mesh = (\<lambda>l r.
        \<lparr>im_buffer = (\<lparr>ncols = 3, row_list = replicate 8 [0, 0, 0]\<rparr>,
                      \<lparr>ncols = 3, row_list = replicate 12 [0, 0, 0]\<rparr>, 8, 12),
         im_left_keyframe = [0, 1, 2, 3],
         im_right_keyframe = [4, 5, 6, 7], im_root = ([], [], [])\<rparr>),
      mesh_of_split = (\<lambda>s c k.
        \<lparr>sm_buffer = ((CV s)\<lparr>row_list := row_list (CV s) @ replicate 4 [0, 0, 0]\<rparr>,
                      (CF s)\<lparr>row_list := row_list (CF s) @ replicate 8 [0, 0, 0]\<rparr>,
                      num_mesh_vertices s + 4, num_mesh_faces s + 8),
         sm_keyframe = map (\<lambda>i. num_mesh_vertices s + i) [0, 1, 2, 3],
         sm_parent = ([], [], []), sm_left = ([], [], []), sm_right = ([], [], [])\<rparr>),
      validate_points_2d = (\<lambda>m. \<not> self_intersects m),
      validate_cage = (\<lambda>s k. True)\<rparr>"


text \<open>
  A cage after one split, on a skeleton whose indices start at 3/2: the root (address 0)
  spans the keyframes 0 (index 3/2) and 1 (index 4); its children, the leaves 1 and 2, meet
  at the keyframe 2 (index 2). The head of the leaf list is the cell 1, the tail the cell 2.
\<close>

definition cage_two_leaves :: BoundingCage where
  "cage_two_leaves =
     cage_example\<lparr>cells_head := Some 1, cells_tail := Some 2,
       cell_heap :=
         [\<lparr>left_child = Some 1, right_child = Some 2, next_cell = None, prev_cell = None,
           left_keyframe = Some 0, right_keyframe = Some 1,
           cell_V = [], cell_F = [], mesh_face_indexes = []\<rparr>,
          \<lparr>left_child = None, right_child = None, next_cell = Some 2, prev_cell = None,
           left_keyframe = Some 0, right_keyframe = Some 2,
           cell_V = [], cell_F = [], mesh_face_indexes = []\<rparr>,
          \<lparr>left_child = None, right_child = None, next_cell = None, prev_cell = Some 1,
           left_keyframe = Some 2, right_keyframe = Some 1,
           cell_V = [], cell_F = [], mesh_face_indexes = []\<rparr>],
       keyframe_heap :=
         [kf_example\<lparr>index := 3 / 2, kf_cells := (None, Some 1)\<rparr>,
          kf_example\<lparr>index := 4, center := (5, 2, 3), kf_cells := (Some 2, None)\<rparr>,
          kf_example\<lparr>index := 2, center := (3, 2, 3), kf_cells := (Some 1, Some 2)\<rparr>]\<rparr>"

text \<open>
  The scenario of the specification: five collinear skeleton points and a square template,
  then a split at 2, a split at 1, a split outside the range and a split at a keyframe.
\<close>

definition ops_example :: "op list" where
  "ops_example =
     [Set_skeleton_vertices [[0, 0, 0], [1, 0, 0], [2, 0, 0], [3, 0, 0], [4, 0, 0]] 0
        [[0, 0], [1, 0], [1, 1], [0, 1]],
      Split 5 2, Split 5 1, Split 5 7, Split 5 2]"

section \<open>Properties of the code\<close>

lemma and_then_Inr [simp]: "and_then (Inr x) f = f x"
  by (simp add: and_then_def)

lemma and_then_Inl [simp]: "and_then (Inl e) f = Inl e"
  by (simp add: and_then_def)

subsection \<open>KeyFrame::vertices_3d\<close>

lemma vertices_3d_from_rows:
  "i + n \<le> length (vertices_2d kf) \<Longrightarrow>
   (\<forall>j. i \<le> j \<and> j < i + n \<longrightarrow> 2 \<le> length (vertices_2d kf ! j)) \<Longrightarrow>
   \<exists>M. vertices_3d_from kf i n = Inr M \<and> length M = n \<and>
       (\<forall>j<n. M ! j =
          as_row (vadd (vadd (center kf) (smul (vertices_2d kf ! (i + j) ! 0) (right kf)))
                       (smul (vertices_2d kf ! (i + j) ! 1) (up kf))))"
proof (induction n arbitrary: i)
  case 0
  then show ?case by simp
next
  case (Suc n)
  from Suc.prems have i: "i < length (vertices_2d kf)" and len: "2 \<le> length (vertices_2d kf ! i)"
    by auto
  from Suc.prems have "Suc i + n \<le> length (vertices_2d kf)"
    and "\<forall>j. Suc i \<le> j \<and> j < Suc i + n \<longrightarrow> 2 \<le> length (vertices_2d kf ! j)"
    by auto
  from Suc.IH [OF this] obtain M where M: "vertices_3d_from kf (Suc i) n = Inr M"
    "length M = n"
    "\<forall>j<n. M ! j =
          as_row (vadd (vadd (center kf) (smul (vertices_2d kf ! (Suc i + j) ! 0) (right kf)))
                       (smul (vertices_2d kf ! (Suc i + j) ! 1) (up kf)))"
    by blast
  have c0: "coeff (vertices_2d kf) i 0 = Inr (vertices_2d kf ! i ! 0)"
    and c1: "coeff (vertices_2d kf) i (Suc 0) = Inr (vertices_2d kf ! i ! 1)"
    using i len by (auto simp: coeff_def)
  let ?r = "as_row (vadd (vadd (center kf) (smul (vertices_2d kf ! i ! 0) (right kf)))
                       (smul (vertices_2d kf ! i ! 1) (up kf)))"
  have eq: "vertices_3d_from kf i (Suc n) = Inr (?r # M)"
    by (simp add: c0 c1 M(1) right_def up_def)
  have "\<forall>j<Suc n. (?r # M) ! j =
          as_row (vadd (vadd (center kf) (smul (vertices_2d kf ! (i + j) ! 0) (right kf)))
                       (smul (vertices_2d kf ! (i + j) ! 1) (up kf)))"
  proof (intro allI impI)
    fix j assume "j < Suc n"
    then show "(?r # M) ! j =
          as_row (vadd (vadd (center kf) (smul (vertices_2d kf ! (i + j) ! 0) (right kf)))
                       (smul (vertices_2d kf ! (i + j) ! 1) (up kf)))"
      using M(3) by (cases j) simp_all
  qed
  with eq M(2) show ?case by simp
qed

text \<open>
  C3. For a keyframe whose polygon has the two coordinate columns (an N x 2 matrix; further
  columns would not be read), \<^verbatim>\<open>vertices_3d()\<close> returns a matrix
  with one row per boundary point, and row \<open>i\<close> is
  \<open>center() + x\<^sub>i * right() + y\<^sub>i * up()\<close> for the row \<open>(x\<^sub>i, y\<^sub>i)\<close> of \<^verbatim>\<open>vertices_2d()\<close>.
  The result is a function of the keyframe's fields alone.
\<close>

theorem vertices_3d_projects:
  assumes "\<forall>r \<in> set (vertices_2d kf). 2 \<le> length r"
  shows "\<exists>M. vertices_3d kf = Inr M \<and> rows M = rows (vertices_2d kf) \<and>
           (\<forall>i < rows (vertices_2d kf). M ! i =
              as_row (vadd (vadd (center kf) (smul (vertices_2d kf ! i ! 0) (right kf)))
                           (smul (vertices_2d kf ! i ! 1) (up kf))))"
proof -
  have "\<forall>j. 0 \<le> j \<and> j < 0 + length (vertices_2d kf) \<longrightarrow> 2 \<le> length (vertices_2d kf ! j)"
    using assms by simp
  from vertices_3d_from_rows [of 0 "length (vertices_2d kf)" kf, OF _ this]
  show ?thesis by (simp add: vertices_3d_def rows_def)
qed

theorem vertices_3d_projects_witness:
  "map length (vertices_2d kf_example) = [2, 2, 2] \<and>
   vertices_3d kf_example = Inr [[1, 3, 3], [1, 2, 4], [1, 4, 6]]"
  using vertices_3d_projects [of kf_example]
  by (simp add: kf_example_def vertices_3d_def rows_def coeff_def)

subsection \<open>KeyFrame::transform\<close>

text \<open>
  As declared, the local \<^verbatim>\<open>ret\<close> has no rows, so the first block assignment is already
  outside the matrix: no call of \<^verbatim>\<open>transform()\<close> returns a matrix.
\<close>

lemma transform_out_of_range: "transform kf = Inl IndexOutOfRange"
  by (cases "orientation kf")
    (simp add: transform_def transform_on_def MatrixX4d_default_def setZero_def)

text \<open>
  On a 4 x 4 buffer the same statements put the orientation into the upper left block as it
  is stored, with the rows right, up and normal, and the centre into the last column. The
  product with \<open>(x, y, 0, 1)\<close> then combines the first two columns of the orientation, where
  \<^verbatim>\<open>vertices_3d()\<close> combines its first two rows.
\<close>

lemma transform_on_Matrix4d:
  assumes "orientation kf = ((a, b, c), (d, e, f), (g, h, i))" and "center kf = (u, v, w)"
  shows "transform_on Matrix4d_zero kf =
           Inr [[a, b, c, u], [d, e, f, v], [g, h, i, w], [0, 0, 0, 1]]"
  using assms
  by (simp add: transform_on_def Matrix4d_zero_def setZero_def set_row_segment_def
      set_coeff_def as_Matrix4d_def numeral_eq_Suc)

lemma transform_on_Matrix4d_point:
  "mat_vec [[a, b, c, u], [d, e, f, v], [g, h, i, w], [0, 0, 0, 1]] [x, y, 0, 1] =
     [u + x * a + y * b, v + x * d + y * e, w + x * g + y * h, 1]"
  by (simp add: mat_vec_def dot_def algebra_simps)

lemma vertices_3d_point:
  assumes "orientation kf = ((a, b, c), (d, e, f), (g, h, i))" and "center kf = (u, v, w)"
  shows "as_row (vadd (vadd (center kf) (smul x (right kf))) (smul y (up kf))) =
           [u + x * a + y * d, v + x * b + y * e, w + x * c + y * f]"
  using assms by (simp add: right_def up_def)

text \<open>
  C4. The claim is that \<^verbatim>\<open>transform()\<close> times \<open>(x\<^sub>i, y\<^sub>i, 0, 1)\<close> is row \<open>i\<close> of
  \<^verbatim>\<open>vertices_3d()\<close> in homogeneous coordinates. At \<^const>\<open>kf_example\<close> and its first
  boundary point (1, 0) the code does not do that: as written \<^verbatim>\<open>transform()\<close> stops at the
  first block assignment; and the same statements run on a 4 x 4 matrix put the orientation
  into the matrix untransposed, so the product is (1, 2, 4, 1) where row 0 of
  \<^verbatim>\<open>vertices_3d()\<close> is (1, 3, 3).
\<close>

theorem transform_diverges:
  "transform kf_example = Inl IndexOutOfRange \<and>
   and_then (transform_on Matrix4d_zero kf_example) (\<lambda>T. Inr (mat_vec T [1, 0, 0, 1]))
     = Inr [1, 2, 4, 1] \<and>
   and_then (vertices_3d kf_example) (\<lambda>M. Inr (M ! 0 @ [1])) = Inr [1, 3, 3, 1]"
  by (simp add: transform_def transform_on_def MatrixX4d_default_def Matrix4d_zero_def
      setZero_def kf_example_def set_row_segment_def set_coeff_def as_Matrix4d_def
      mat_vec_def dot_def vertices_3d_def rows_def coeff_def numeral_eq_Suc)

subsection \<open>KeyFrameIterator\<close>

text \<open>
  C7. At a keyframe, \<^verbatim>\<open>operator++\<close> moves to the right keyframe of the cell that bounds the
  keyframe on the right (\<^verbatim>\<open>_cells[1]\<close>), or to the end iterator when there is no such cell;
  \<^verbatim>\<open>operator--\<close> moves to the left keyframe of the cell on the left (\<^verbatim>\<open>_cells[0]\<close>), or to
  the end iterator.
\<close>

theorem KeyFrameIterator_moves:
  assumes "keyframe it = Some k" and "k < length (keyframe_heap s)"
  shows "KeyFrameIterator_incr s it =
           Inr (case lock s (snd (kf_cells (keyframe_heap s ! k))) of
                  None \<Rightarrow> KeyFrames_end s
                | Some c \<Rightarrow> KeyFrameIterator (right_keyframe (cell_heap s ! c))) \<and>
         KeyFrameIterator_decr s it =
           Inr (case lock s (fst (kf_cells (keyframe_heap s ! k))) of
                  None \<Rightarrow> KeyFrames_end s
                | Some c \<Rightarrow> KeyFrameIterator (left_keyframe (cell_heap s ! c)))"
  using assms
  by (auto simp: KeyFrameIterator_incr_def KeyFrameIterator_decr_def deref_keyframe_def
      deref_cell_def lock_def KeyFrames_end_def Let_def split: option.splits)

theorem KeyFrameIterator_moves_witness:
  "keyframe (KeyFrameIterator (Some 0)) = Some 0 \<and> 0 < length (keyframe_heap cage_example) \<and>
   KeyFrameIterator_incr cage_example (KeyFrameIterator (Some 0)) = Inr (KeyFrameIterator (Some 1)) \<and>
   KeyFrameIterator_decr cage_example (KeyFrameIterator (Some 0)) = Inr (KeyFrames_end cage_example)"
  using KeyFrameIterator_moves [of "KeyFrameIterator (Some 0)" 0 cage_example]
  by (simp add: cage_example_def lock_def KeyFrames_end_def)

text \<open>
  C10. \<^verbatim>\<open>operator++\<close> and \<^verbatim>\<open>operator--\<close> read \<^verbatim>\<open>keyframe->_cells\<close> before any test of
  \<^verbatim>\<open>keyframe\<close>: on the end iterator both dereference the null pointer, and the end iterator is
  the only iterator on which they do.
\<close>

theorem KeyFrameIterator_end_unguarded:
  "KeyFrameIterator_incr s (KeyFrames_end s) = Inl NullDereference \<and>
   KeyFrameIterator_decr s (KeyFrames_end s) = Inl NullDereference \<and>
   (KeyFrameIterator_incr s it = Inl NullDereference) = (it = KeyFrames_end s) \<and>
   (KeyFrameIterator_decr s it = Inl NullDereference) = (it = KeyFrames_end s)"
  by (cases it) (auto simp: KeyFrameIterator_incr_def KeyFrameIterator_decr_def
      deref_keyframe_def deref_cell_def lock_def KeyFrames_end_def Let_def split: option.splits)

subsection \<open>BoundingCage::clear, min\_index and max\_index\<close>

text \<open>
  What \<^verbatim>\<open>clear()\<close> leaves behind, for every cage: skeleton matrices without rows, mesh
  buffers without rows and without columns, zero counts, no root, an empty leaf list, empty
  cell and keyframe ranges, and both index bounds 0. The two mesh accessors ask the emptied
  buffers for a block of three columns, which is outside a matrix without columns.
\<close>

lemma clear_resets:
  "rows (skeleton_vertices (clear s)) = 0 \<and>
   rows (smooth_skeleton_vertices (clear s)) = 0 \<and>
   CV (clear s) = Matrix_empty \<and> CF (clear s) = Matrix_empty \<and>
   num_mesh_vertices (clear s) = 0 \<and> num_mesh_faces (clear s) = 0 \<and>
   root (clear s) = None \<and> cells_head (clear s) = None \<and> cells_tail (clear s) = None \<and>
   Cells_begin (clear s) = Cells_end (clear s) \<and>
   KeyFrames_begin (clear s) = Inr (KeyFrames_end (clear s)) \<and>
   min_index (clear s) = Inr 0 \<and> max_index (clear s) = Inr 0"
  by (simp add: clear_def rows_def skeleton_vertices_def smooth_skeleton_vertices_def
      Cells_begin_def Cells_end_def KeyFrames_begin_def KeyFrames_end_def
      min_index_def max_index_def)

lemma clear_vertices_out_of_range:
  "vertices (clear s) = Inl IndexOutOfRange \<and> faces (clear s) = Inl IndexOutOfRange"
  by (simp add: clear_def vertices_def faces_def block_def Matrix_empty_def)

text \<open>
  C8. The claim is that after \<^verbatim>\<open>clear()\<close> the cage is empty and \<^verbatim>\<open>vertices()\<close> and
  \<^verbatim>\<open>faces()\<close> report matrices without rows. At \<^const>\<open>cage_example\<close>, whose accessors
  report the 8 vertices and the 12 faces of its mesh, \<^verbatim>\<open>clear()\<close> does empty the buffers and
  the counts, but \<^verbatim>\<open>CV.resize(0, 0)\<close> and \<^verbatim>\<open>CF.resize(0, 0)\<close> leave no columns, so
  \<^verbatim>\<open>CV.block(0, 0, 0, 3)\<close> and \<^verbatim>\<open>CF.block(0, 0, 0, 3)\<close> are out of range: no matrix is
  reported.
\<close>

theorem clear_then_vertices_fails:
  "vertices cage_example = Inr (CV cage_example) \<and> faces cage_example = Inr (CF cage_example) \<and>
   rows (row_list (CV cage_example)) = 8 \<and> rows (row_list (CF cage_example)) = 12 \<and>
   CV (clear cage_example) = \<lparr>ncols = 0, row_list = []\<rparr> \<and>
   CF (clear cage_example) = \<lparr>ncols = 0, row_list = []\<rparr> \<and>
   num_mesh_vertices (clear cage_example) = 0 \<and> num_mesh_faces (clear cage_example) = 0 \<and>
   vertices (clear cage_example) = Inl IndexOutOfRange \<and>
   faces (clear cage_example) = Inl IndexOutOfRange"
  by (simp add: clear_def vertices_def faces_def block_def Matrix_empty_def cage_example_def
      rows_def)

text \<open>
  C9. Without a root both bounds are 0. With a root cell that has its two keyframes,
  \<^verbatim>\<open>min_index()\<close> is the index of the root's left keyframe whenever the head of the leaf
  list is a cell whose left keyframe has that index (the condition of the first assertion),
  and \<^verbatim>\<open>max_index()\<close> is the index of the root's right keyframe whenever the tail of the
  leaf list is a cell whose right keyframe has that index (the condition of the second).
\<close>

theorem min_max_index_bounds:
  "(root s = None \<longrightarrow> min_index s = Inr 0 \<and> max_index s = Inr 0) \<and>
   (root s = Some r \<and> r < length (cell_heap s) \<and>
    left_keyframe (cell_heap s ! r) = Some l \<and> l < length (keyframe_heap s) \<and>
    cells_head s = Some h \<and> h < length (cell_heap s) \<and>
    left_keyframe (cell_heap s ! h) = Some hl \<and> hl < length (keyframe_heap s) \<and>
    index (keyframe_heap s ! hl) = index (keyframe_heap s ! l)
    \<longrightarrow> min_index s = Inr (index (keyframe_heap s ! l))) \<and>
   (root s = Some r \<and> r < length (cell_heap s) \<and>
    right_keyframe (cell_heap s ! r) = Some u \<and> u < length (keyframe_heap s) \<and>
    cells_tail s = Some t \<and> t < length (cell_heap s) \<and>
    right_keyframe (cell_heap s ! t) = Some tu \<and> tu < length (keyframe_heap s) \<and>
    index (keyframe_heap s ! tu) = index (keyframe_heap s ! u)
    \<longrightarrow> max_index s = Inr (index (keyframe_heap s ! u)))"
  by (simp add: min_index_def max_index_def Cell_min_index_def Cell_max_index_def
      deref_cell_def deref_keyframe_def)

theorem min_max_index_bounds_witness:
  "root BoundingCage_new = None \<and>
   min_index BoundingCage_new = Inr 0 \<and> max_index BoundingCage_new = Inr 0 \<and>
   root cage_two_leaves = Some 0 \<and> 0 < length (cell_heap cage_two_leaves) \<and>
   left_keyframe (cell_heap cage_two_leaves ! 0) = Some 0 \<and>
   right_keyframe (cell_heap cage_two_leaves ! 0) = Some 1 \<and>
   length (keyframe_heap cage_two_leaves) = 3 \<and>
   cells_head cage_two_leaves = Some 1 \<and> cells_tail cage_two_leaves = Some 2 \<and>
   length (cell_heap cage_two_leaves) = 3 \<and>
   left_keyframe (cell_heap cage_two_leaves ! 1) = Some 0 \<and>
   right_keyframe (cell_heap cage_two_leaves ! 2) = Some 1 \<and>
   index (keyframe_heap cage_two_leaves ! 0) = 3 / 2 \<and>
   index (keyframe_heap cage_two_leaves ! 1) = 4 \<and>
   min_index cage_two_leaves = Inr (3 / 2) \<and> max_index cage_two_leaves = Inr 4"
  using min_max_index_bounds [of BoundingCage_new]
    min_max_index_bounds [of cage_two_leaves 0 0 1 0 1 2 1]
  by (simp add: BoundingCage_new_def cage_two_leaves_def cage_example_def)

subsection \<open>Splits that are rejected\<close>

text \<open>
  C1. In a cage with a root whose index bounds are \<open>lo\<close> and \<open>hi\<close>, \<^verbatim>\<open>split(index)\<close> with
  an index below \<open>lo\<close> or above \<open>hi\<close> returns the end iterator and the state it leaves is
  the state it found, whatever the fuel and the collaborators: the leaf cells, the mesh
  vertices and the mesh faces are the same, and so are their numbers.
\<close>

theorem split_outside_fails:
  assumes "root s \<noteq> None" and "min_index s = Inr lo" and "max_index s = Inr hi"
    and "idx < lo \<or> hi < idx"
  shows "\<exists>s' it. split fuel P s idx = Inr (s', it) \<and> it = KeyFrames_end s' \<and> s' = s \<and>
           collect_cells n s' (Cells_begin s') = collect_cells n s (Cells_begin s) \<and>
           num_mesh_vertices s' = num_mesh_vertices s \<and> vertices s' = vertices s \<and>
           num_mesh_faces s' = num_mesh_faces s \<and> faces s' = faces s"
  using assms by (simp add: split_def keyframe_for_index_def)

theorem split_outside_fails_witness:
  "root cage_example \<noteq> None \<and> min_index cage_example = Inr 0 \<and> max_index cage_example = Inr 4 \<and>
   split 0 P_example cage_example 7 = Inr (cage_example, KeyFrames_end cage_example) \<and>
   split 0 P_example cage_example (- 1) = Inr (cage_example, KeyFrames_end cage_example)"
proof -
  have a: "root cage_example \<noteq> None" by (simp add: cage_example_def)
  have b: "min_index cage_example = Inr 0"
    by (simp add: min_index_def Cell_min_index_def deref_cell_def deref_keyframe_def
        cage_example_def)
  have c: "max_index cage_example = Inr 4"
    by (simp add: max_index_def Cell_max_index_def deref_cell_def deref_keyframe_def
        cage_example_def)
  show ?thesis
    using a b c split_outside_fails [OF a b c, of 7 0 P_example]
      split_outside_fails [OF a b c, of "- 1" 0 P_example]
    by auto
qed

text \<open>
  C6. \<^verbatim>\<open>Cell::split\<close> with a keyframe whose index is not strictly inside
  \<open>(left.index, right.index)\<close> of the cell, in particular one whose index is the index of
  the left or of the right keyframe, returns the null keyframe and leaves the whole state as
  it was: the cell is unchanged and no keyframe is installed or added. No fuel is needed.
\<close>

theorem Cell_split_rejects_boundary:
  assumes "deref_cell s c = Inr this" and "deref_keyframe s key_frame = Inr kf"
    and "Cell_min_index s c = Inr lo" and "Cell_max_index s c = Inr hi"
    and "\<not> (lo < index kf \<and> index kf < hi)"
  shows "Cell_split fuel P s c key_frame = Inr (s, None)"
  using assms by (cases fuel) (simp_all add: Cell_split_step_def)

theorem Cell_split_rejects_boundary_witness:
  "deref_cell cage_example (Some 0) = Inr (cell_heap cage_example ! 0) \<and>
   deref_keyframe cage_example (Some 1) = Inr (keyframe_heap cage_example ! 1) \<and>
   Cell_min_index cage_example (Some 0) = Inr 0 \<and>
   Cell_max_index cage_example (Some 0) = Inr 4 \<and>
   index (keyframe_heap cage_example ! 1) = 4 \<and>
   Cell_split 0 P_example cage_example (Some 0) (Some 1) = Inr (cage_example, None)"
proof -
  have a: "deref_cell cage_example (Some 0) = Inr (cell_heap cage_example ! 0)"
    by (simp add: deref_cell_def cage_example_def)
  have b: "deref_keyframe cage_example (Some 1) = Inr (keyframe_heap cage_example ! 1)"
    by (simp add: deref_keyframe_def cage_example_def)
  have c: "Cell_min_index cage_example (Some 0) = Inr 0"
    by (simp add: Cell_min_index_def deref_cell_def deref_keyframe_def cage_example_def)
  have d: "Cell_max_index cage_example (Some 0) = Inr 4"
    by (simp add: Cell_max_index_def deref_cell_def deref_keyframe_def cage_example_def)
  have e: "index (keyframe_heap cage_example ! 1) = 4"
    by (simp add: cage_example_def)
  have f: "\<not> (0 < index (keyframe_heap cage_example ! 1) \<and>
              index (keyframe_heap cage_example ! 1) < 4)"
    by (simp add: cage_example_def)
  show ?thesis
    using a b c d e Cell_split_rejects_boundary [OF a b c d f, of 0 P_example] by simp
qed

subsection \<open>KeyFrame::move\_point\_2d\<close>




section \<open>The leaf list stays ordered\<close>

subsection \<open>Trees\<close>

lemma top_graft [simp]: "root_of (graft t c l) = root_of t"
  by (cases t) simp_all

lemma leaves_subset_nodes: "set (leaves t) \<subseteq> set (nodes t)"
  by (induction t) auto

lemma graft_id: "c \<notin> set (leaves t) \<Longrightarrow> graft t c l = t"
  by (induction t) auto

lemma leaves_nonempty [simp]: "leaves t \<noteq> []"
  by (induction t) auto

lemma below_fresh: "\<forall>a \<in> set xs. a < (l::nat) \<Longrightarrow> l \<notin> set xs \<and> Suc l \<notin> set xs"
  by (induction xs) auto

lemma nodes_graft:
  "set (nodes (graft t c l)) \<subseteq> set (nodes t) \<union> {l, Suc l}"
  by (induction t) auto

lemma distinct_nodes_graft:
  "distinct (nodes t) \<Longrightarrow> \<forall>a \<in> set (nodes t). a < l \<Longrightarrow> distinct (nodes (graft t c l))"
proof (induction t)
  case (Leaf a)
  then show ?case by auto
next
  case (Node a lt rt)
  have dl: "distinct (nodes (graft lt c l))" and dr: "distinct (nodes (graft rt c l))"
    using Node by auto
  have a: "a \<notin> set (nodes (graft lt c l))" "a \<notin> set (nodes (graft rt c l))"
    using Node.prems nodes_graft [of lt c l] nodes_graft [of rt c l] by auto
  have fresh: "l \<notin> set (nodes lt) \<and> Suc l \<notin> set (nodes lt)"
    "l \<notin> set (nodes rt) \<and> Suc l \<notin> set (nodes rt)"
    using Node.prems(2) below_fresh [of "nodes lt" l] below_fresh [of "nodes rt" l] by simp_all
  have apart: "set (nodes lt) \<inter> set (nodes rt) = {}"
    using Node.prems(1) by simp
  have disj: "set (nodes (graft lt c l)) \<inter> set (nodes (graft rt c l)) = {}"
  proof (cases "c \<in> set (leaves lt)")
    case True
    then have "c \<notin> set (leaves rt)"
      using Node.prems(1) leaves_subset_nodes [of lt] leaves_subset_nodes [of rt] by auto
    then have "graft rt c l = rt" by (rule graft_id)
    then show ?thesis
      using fresh(2) apart nodes_graft [of lt c l] by auto
  next
    case False
    then have "graft lt c l = lt" by (rule graft_id)
    then show ?thesis
      using fresh(1) apart nodes_graft [of rt c l] by auto
  qed
  show ?case using dl dr a disj by simp
qed

lemma leaves_graft:
  "distinct (nodes t) \<Longrightarrow> c \<in> set (leaves t) \<Longrightarrow>
   \<exists>xs ys. leaves t = xs @ c # ys \<and> leaves (graft t c l) = xs @ [l, Suc l] @ ys"
proof (induction t)
  case (Leaf a)
  then show ?case by auto
next
  case (Node a lt rt)
  show ?case
  proof (cases "c \<in> set (leaves lt)")
    case True
    then have "c \<notin> set (leaves rt)"
      using Node.prems(1) leaves_subset_nodes [of lt] leaves_subset_nodes [of rt] by auto
    then have r: "graft rt c l = rt" by (rule graft_id)
    from Node.IH(1) True Node.prems(1) obtain xs ys where
      "leaves lt = xs @ c # ys" "leaves (graft lt c l) = xs @ [l, Suc l] @ ys" by auto
    then have "leaves (Node a lt rt) = xs @ c # (ys @ leaves rt) \<and>
        leaves (graft (Node a lt rt) c l) = xs @ [l, Suc l] @ (ys @ leaves rt)"
      using r by simp
    then show ?thesis by blast
  next
    case False
    then have l: "graft lt c l = lt" by (rule graft_id)
    from False Node.prems(2) have "c \<in> set (leaves rt)" by simp
    with Node.IH(2) Node.prems(1) obtain xs ys where
      "leaves rt = xs @ c # ys" "leaves (graft rt c l) = xs @ [l, Suc l] @ ys" by auto
    then have "leaves (Node a lt rt) = (leaves lt @ xs) @ c # ys \<and>
        leaves (graft (Node a lt rt) c l) = (leaves lt @ xs) @ [l, Suc l] @ ys"
      using l by simp
    then show ?thesis by blast
  qed
qed

lemma is_tree_graft:
  assumes "is_tree h t"
    and "left_child (h ! c) = None"
    and "\<forall>a \<in> set (nodes t). a \<noteq> c \<longrightarrow>
           left_child (h' ! a) = left_child (h ! a) \<and> right_child (h' ! a) = right_child (h ! a)"
    and "left_child (h' ! c) = Some l" and "right_child (h' ! c) = Some (Suc l)"
    and "left_child (h' ! l) = None" and "right_child (h' ! l) = None"
    and "left_child (h' ! Suc l) = None" and "right_child (h' ! Suc l) = None"
  shows "is_tree h' (graft t c l)"
  using assms(1,3)
proof (induction t)
  case (Leaf a)
  then show ?case using assms(4-9) by auto
next
  case (Node a lt rt)
  from Node.prems(1) assms(2) have "a \<noteq> c" by auto
  then show ?case using Node by auto
qed

subsection \<open>Segments of a linked list\<close>

lemma seg_append: "seg f p (xs @ ys) q = (\<exists>m. seg f p xs m \<and> seg f m ys q)"
  by (induction xs arbitrary: p) auto

lemma seg_cong: "\<forall>a \<in> set xs. g a = f a \<Longrightarrow> seg g p xs q = seg f p xs q"
  by (induction xs arbitrary: p) auto

lemma seg_redirect:
  "seg f p xs (Some c) \<Longrightarrow> distinct xs \<Longrightarrow>
   \<forall>a \<in> set xs. g a = (if a = last xs then Some l else f a) \<Longrightarrow>
   seg g (if xs = [] then Some l else p) xs (Some l)"
proof (induction xs arbitrary: p)
  case Nil
  then show ?case by simp
next
  case (Cons a as)
  show ?case
  proof (cases "as = []")
    case True
    with Cons.prems show ?thesis by simp
  next
    case False
    with Cons.prems have "a \<noteq> last as" by auto
    with Cons.prems False have ga: "g a = f a" by simp
    have "seg g (if as = [] then Some l else f a) as (Some l)"
      using Cons.prems False by (intro Cons.IH) auto
    with False ga Cons.prems show ?thesis by simp
  qed
qed

lemma link_append: "link h p (xs @ ys) q = (\<exists>m. link h p xs m \<and> link h m ys q)"
  by (induction xs arbitrary: p) auto

lemma link_cong:
  "\<forall>a \<in> set xs. left_keyframe (h' ! a) = left_keyframe (h ! a) \<and>
                  right_keyframe (h' ! a) = right_keyframe (h ! a) \<Longrightarrow>
   link h' p xs q = link h p xs q"
  by (induction xs arbitrary: p) auto

lemma distinct_leaves: "distinct (nodes t) \<Longrightarrow> distinct (leaves t)"
proof (induction t)
  case (Leaf a)
  then show ?case by simp
next
  case (Node a lt rt)
  then have "set (leaves lt) \<inter> set (leaves rt) = {}"
    using leaves_subset_nodes [of lt] leaves_subset_nodes [of rt] by auto
  with Node show ?case by simp
qed

lemma seg_end: "seg f p xs q \<Longrightarrow> xs \<noteq> [] \<Longrightarrow> f (last xs) = q"
  by (induction xs arbitrary: p) (auto split: if_splits)

lemma seg_start: "seg f p xs q \<Longrightarrow> xs \<noteq> [] \<Longrightarrow> p = Some (hd xs)"
  by (cases xs) auto

subsection \<open>The heap after the split of a leaf\<close>

lemmas split_leaf_unfold =
  split_leaf_def Let_def with_buffer_def upd_cell_def with_mesh_def Cell_new_def

lemma split_leaf_root [simp]: "root (split_leaf P s c k) = root s"
  by (simp add: split_leaf_unfold)

lemma split_leaf_head:
  "cells_head (split_leaf P s c k) =
     (if cells_head s = Some c then Some (length (cell_heap s)) else cells_head s)"
  by (simp add: split_leaf_unfold)

lemma split_leaf_tail:
  "cells_tail (split_leaf P s c k) =
     (if cells_tail s = Some c then Some (Suc (length (cell_heap s))) else cells_tail s)"
  by (simp add: split_leaf_unfold)

lemma upd_cell_length [simp]: "length (upd_cell p f h) = length h"
  by (simp add: upd_cell_def split: option.splits)

lemma upd_cell_nth:
  "upd_cell p f h ! a = (if p = Some a \<and> a < length h then f (h ! a) else h ! a)"
proof (cases p)
  case None
  then show ?thesis by (simp add: upd_cell_def)
next
  case (Some b)
  show ?thesis
  proof (cases "b = a")
    case True
    then show ?thesis using Some by (simp add: upd_cell_def list_update_beyond)
  next
    case False
    then show ?thesis using Some by (simp add: upd_cell_def)
  qed
qed

lemma split_leaf_length [simp]:
  "length (cell_heap (split_leaf P s c k)) = Suc (Suc (length (cell_heap s)))"
  by (simp add: split_leaf_def Let_def with_buffer_def)

lemma upd_keyframe_length [simp]: "length (upd_keyframe p f h) = length h"
  by (simp add: upd_keyframe_def split: option.splits)

lemma upd_keyframe_index:
  assumes "\<And>x. index (f x) = index x"
  shows "index (upd_keyframe p f h ! a) = index (h ! a)"
proof (cases p)
  case None
  then show ?thesis by (simp add: upd_keyframe_def)
next
  case (Some b)
  show ?thesis
  proof (cases "b = a \<and> a < length h")
    case True
    then show ?thesis using Some assms by (simp add: upd_keyframe_def)
  next
    case False
    then have "h[b := f (h ! b)] ! a = h ! a"
      by (cases "b = a") (simp_all add: list_update_beyond)
    then show ?thesis using Some by (simp add: upd_keyframe_def)
  qed
qed

lemma split_leaf_kf_length [simp]:
  "length (keyframe_heap (split_leaf P s c k)) = length (keyframe_heap s)"
  by (simp add: split_leaf_def Let_def with_buffer_def)

lemma split_leaf_index [simp]:
  "index (keyframe_heap (split_leaf P s c k) ! a) = index (keyframe_heap s ! a)"
  by (simp add: split_leaf_def Let_def with_buffer_def upd_keyframe_index)

lemmas split_leaf_cells =
  split_leaf_def Let_def with_buffer_def upd_cell_nth with_mesh_def Cell_new_def nth_append

lemma split_leaf_old_cell:
  assumes "a < length (cell_heap s)" and "a \<noteq> c"
  shows "left_child (cell_heap (split_leaf P s c k) ! a) = left_child (cell_heap s ! a)"
    and "right_child (cell_heap (split_leaf P s c k) ! a) = right_child (cell_heap s ! a)"
    and "left_keyframe (cell_heap (split_leaf P s c k) ! a) = left_keyframe (cell_heap s ! a)"
    and "right_keyframe (cell_heap (split_leaf P s c k) ! a) = right_keyframe (cell_heap s ! a)"
    and "next_cell (cell_heap (split_leaf P s c k) ! a) =
           (if prev_cell (cell_heap s ! c) = Some a then Some (length (cell_heap s))
            else next_cell (cell_heap s ! a))"
    and "prev_cell (cell_heap (split_leaf P s c k) ! a) =
           (if next_cell (cell_heap s ! c) = Some a then Some (Suc (length (cell_heap s)))
            else prev_cell (cell_heap s ! a))"
  using assms
  by (simp_all add: split_leaf_cells)

lemma split_leaf_this_cell:
  assumes "c < length (cell_heap s)"
  shows "left_child (cell_heap (split_leaf P s c k) ! c) = Some (length (cell_heap s))"
    and "right_child (cell_heap (split_leaf P s c k) ! c) = Some (Suc (length (cell_heap s)))"
    and "left_keyframe (cell_heap (split_leaf P s c k) ! c) = left_keyframe (cell_heap s ! c)"
    and "right_keyframe (cell_heap (split_leaf P s c k) ! c) = right_keyframe (cell_heap s ! c)"
  using assms
  by (simp_all add: split_leaf_cells)

lemma split_leaf_new_cells:
  assumes "c < length (cell_heap s)"
    and "\<forall>p. prev_cell (cell_heap s ! c) = Some p \<longrightarrow> p < length (cell_heap s)"
    and "\<forall>n. next_cell (cell_heap s ! c) = Some n \<longrightarrow> n < length (cell_heap s)"
    and "l = length (cell_heap s)"
  shows "left_child (cell_heap (split_leaf P s c k) ! l) = None"
    and "right_child (cell_heap (split_leaf P s c k) ! l) = None"
    and "left_child (cell_heap (split_leaf P s c k) ! Suc l) = None"
    and "right_child (cell_heap (split_leaf P s c k) ! Suc l) = None"
    and "left_keyframe (cell_heap (split_leaf P s c k) ! l) = left_keyframe (cell_heap s ! c)"
    and "right_keyframe (cell_heap (split_leaf P s c k) ! l) = Some k"
    and "left_keyframe (cell_heap (split_leaf P s c k) ! Suc l) = Some k"
    and "right_keyframe (cell_heap (split_leaf P s c k) ! Suc l) = right_keyframe (cell_heap s ! c)"
    and "next_cell (cell_heap (split_leaf P s c k) ! l) = Some (Suc l)"
    and "next_cell (cell_heap (split_leaf P s c k) ! Suc l) = next_cell (cell_heap s ! c)"
    and "prev_cell (cell_heap (split_leaf P s c k) ! l) = prev_cell (cell_heap s ! c)"
    and "prev_cell (cell_heap (split_leaf P s c k) ! Suc l) = Some l"
proof -
  have far: "prev_cell (cell_heap s ! c) \<noteq> Some (length (cell_heap s))"
    "prev_cell (cell_heap s ! c) \<noteq> Some (Suc (length (cell_heap s)))"
    "next_cell (cell_heap s ! c) \<noteq> Some (length (cell_heap s))"
    "next_cell (cell_heap s ! c) \<noteq> Some (Suc (length (cell_heap s)))"
    using assms(2,3) by fastforce+
  show "left_child (cell_heap (split_leaf P s c k) ! l) = None"
    and "right_child (cell_heap (split_leaf P s c k) ! l) = None"
    and "left_child (cell_heap (split_leaf P s c k) ! Suc l) = None"
    and "right_child (cell_heap (split_leaf P s c k) ! Suc l) = None"
    and "left_keyframe (cell_heap (split_leaf P s c k) ! l) = left_keyframe (cell_heap s ! c)"
    and "right_keyframe (cell_heap (split_leaf P s c k) ! l) = Some k"
    and "left_keyframe (cell_heap (split_leaf P s c k) ! Suc l) = Some k"
    and "right_keyframe (cell_heap (split_leaf P s c k) ! Suc l) = right_keyframe (cell_heap s ! c)"
    and "next_cell (cell_heap (split_leaf P s c k) ! l) = Some (Suc l)"
    and "next_cell (cell_heap (split_leaf P s c k) ! Suc l) = next_cell (cell_heap s ! c)"
    and "prev_cell (cell_heap (split_leaf P s c k) ! l) = prev_cell (cell_heap s ! c)"
    and "prev_cell (cell_heap (split_leaf P s c k) ! Suc l) = Some l"
    using assms(1,4) far by (simp_all add: split_leaf_cells)
qed

lemma split_leaf_keyframes_kept:
  assumes "a < length (cell_heap s)"
  shows "left_keyframe (cell_heap (split_leaf P s c k) ! a) = left_keyframe (cell_heap s ! a) \<and>
         right_keyframe (cell_heap (split_leaf P s c k) ! a) = right_keyframe (cell_heap s ! a)"
  using assms split_leaf_old_cell(3,4) [of a s c P k] split_leaf_this_cell(3,4) [of c s P k]
  by (cases "a = c") simp_all

lemma cell_ok_kept:
  assumes "cell_ok s a" and "a < length (cell_heap s)"
  shows "cell_ok (split_leaf P s c k) a"
  using assms split_leaf_keyframes_kept [of a s P c k]
  by (auto simp: cell_ok_def)

lemma split_leaf_inv:
  assumes cage_ok: "cage_inv s t" and cin: "c \<in> set (leaves t)"
    and k: "k < length (keyframe_heap s)"
    and lk: "left_keyframe (cell_heap s ! c) = Some L"
    and rk: "right_keyframe (cell_heap s ! c) = Some R"
    and lo: "index (keyframe_heap s ! L) < index (keyframe_heap s ! k)"
    and hi: "index (keyframe_heap s ! k) < index (keyframe_heap s ! R)"
  shows "cage_inv (split_leaf P s c k) (graft t c (length (cell_heap s)))"
proof -
  define h where "h = cell_heap s"
  define l where "l = length h"
  define s' where "s' = split_leaf P s c k"
  define h' where "h' = cell_heap s'"
  note defs = h_def l_def s'_def h'_def
  from cage_ok have root: "root s = Some (root_of t)" and tree: "is_tree h t"
    and dist: "distinct (nodes t)" and valid: "\<forall>a \<in> set (nodes t). a < l"
    and fwd: "seg (nxt h) (cells_head s) (leaves t) None"
    and bwd: "seg (prv h) (cells_tail s) (rev (leaves t)) None"
    and ok: "\<forall>a \<in> set (leaves t). cell_ok s a"
    and chain: "link h (left_keyframe (h ! root_of t)) (leaves t) (right_keyframe (h ! root_of t))"
    by (simp_all add: cage_inv_def defs)
  from leaves_graft [OF dist cin, of l] obtain xs ys where
    split: "leaves t = xs @ c # ys" and split': "leaves (graft t c l) = xs @ [l, Suc l] @ ys"
    by blast
  have dl: "distinct (xs @ c # ys)"
    using distinct_leaves [OF dist] split by simp
  have lv: "\<forall>a \<in> set (xs @ c # ys). a < l"
    using valid leaves_subset_nodes [of t] split by auto
  have c: "c < l" using lv by simp
  have cleaf: "left_child (h ! c) = None"
    using tree cin by (induction t) auto

  \<comment> \<open>the links of the split cell\<close>
  from fwd split have f1: "seg (nxt h) (cells_head s) xs (Some c)"
    and f2: "seg (nxt h) (nxt h c) ys None"
    by (auto simp: seg_append)
  from bwd split have b1: "seg (prv h) (cells_tail s) (rev ys) (Some c)"
    and b2: "seg (prv h) (prv h c) (rev xs) None"
    by (auto simp: seg_append)
  have prevc: "prev_cell (h ! c) = (if xs = [] then None else Some (last xs))"
  proof (cases "xs = []")
    case True
    with b2 show ?thesis by (simp add: prv_def)
  next
    case False
    with seg_start [OF b2] show ?thesis by (simp add: prv_def hd_rev)
  qed
  have nextc: "next_cell (h ! c) = (if ys = [] then None else Some (hd ys))"
  proof (cases "ys = []")
    case True
    with f2 show ?thesis by (simp add: nxt_def)
  next
    case False
    with seg_start [OF f2] show ?thesis by (simp add: nxt_def)
  qed
  have head: "cells_head s = (if xs = [] then Some c else Some (hd xs))"
    using f1 by (cases xs) auto
  have tail: "cells_tail s = (if ys = [] then Some c else Some (last ys))"
    using b1 seg_start [OF b1] by (cases "ys = []") (auto simp: hd_rev)
  have pvalid: "\<forall>p. prev_cell (cell_heap s ! c) = Some p \<longrightarrow> p < length (cell_heap s)"
    using prevc lv by (auto simp: defs split: if_splits)
  have nvalid: "\<forall>n. next_cell (cell_heap s ! c) = Some n \<longrightarrow> n < length (cell_heap s)"
    using nextc lv by (auto simp: defs split: if_splits)
  note new = split_leaf_new_cells [OF c [unfolded defs] pvalid nvalid l_def [unfolded h_def],
      of P k, folded defs]
  have old_next: "nxt h' a = (if prev_cell (h ! c) = Some a then Some l else nxt h a)"
    if "a < l" "a \<noteq> c" for a
    using split_leaf_old_cell(5) [of a s c P k] that by (simp add: defs nxt_def)
  have old_prev: "prv h' a = (if next_cell (h ! c) = Some a then Some (Suc l) else prv h a)"
    if "a < l" "a \<noteq> c" for a
    using split_leaf_old_cell(6) [of a s c P k] that by (simp add: defs prv_def)

  \<comment> \<open>the tree\<close>
  have t1: "root s' = Some (root_of (graft t c l))"
    using root by (simp add: defs)
  have t2: "is_tree h' (graft t c l)"
  proof (rule is_tree_graft [OF tree cleaf])
    show "\<forall>a \<in> set (nodes t). a \<noteq> c \<longrightarrow>
        left_child (h' ! a) = left_child (h ! a) \<and> right_child (h' ! a) = right_child (h ! a)"
      using valid split_leaf_old_cell(1,2) [of _ s c P k] by (auto simp: defs)
    show "left_child (h' ! c) = Some l" "right_child (h' ! c) = Some (Suc l)"
      using split_leaf_this_cell(1,2) [of c s P k] c by (simp_all add: defs)
    show "left_child (h' ! l) = None" "right_child (h' ! l) = None"
      "left_child (h' ! Suc l) = None" "right_child (h' ! Suc l) = None"
      using new(1-4) by simp_all
  qed
  have t3: "distinct (nodes (graft t c l))"
    using dist valid by (rule distinct_nodes_graft)
  have t4: "\<forall>a \<in> set (nodes (graft t c l)). a < length h'"
  proof
    fix a assume "a \<in> set (nodes (graft t c l))"
    then have "a \<in> set (nodes t) \<or> a = l \<or> a = Suc l"
      using nodes_graft [of t c l] by blast
    moreover have "length h' = Suc (Suc l)" by (simp add: defs)
    ultimately show "a < length h'" using valid by auto
  qed

  \<comment> \<open>the list, forward\<close>
  have head': "cells_head s' = (if xs = [] then Some l else cells_head s)"
    using head dl by (cases xs) (auto simp: defs split_leaf_head)
  have "seg (nxt h') (if xs = [] then Some l else cells_head s) xs (Some l)"
  proof (rule seg_redirect [OF f1])
    show "distinct xs" using dl by simp
    show "\<forall>a \<in> set xs. nxt h' a = (if a = last xs then Some l else nxt h a)"
    proof
      fix a assume a: "a \<in> set xs"
      then have "a < l" "a \<noteq> c" "xs \<noteq> []" using lv dl by auto
      with old_next [of a] prevc show "nxt h' a = (if a = last xs then Some l else nxt h a)"
        by auto
    qed
  qed
  moreover have "seg (nxt h') (nxt h c) ys None"
  proof -
    have "\<forall>a \<in> set ys. nxt h' a = nxt h a"
    proof
      fix a assume a: "a \<in> set ys"
      then have "a < l" "a \<noteq> c" using lv dl by auto
      moreover have "prev_cell (h ! c) \<noteq> Some a"
      proof
        assume "prev_cell (h ! c) = Some a"
        with prevc have "xs \<noteq> []" "a = last xs" by (auto split: if_splits)
        then have "a \<in> set xs" by simp
        with a dl show False by auto
      qed
      ultimately show "nxt h' a = nxt h a" using old_next [of a] by simp
    qed
    from seg_cong [OF this] f2 show ?thesis by simp
  qed
  ultimately have l1: "seg (nxt h') (cells_head s') (leaves (graft t c l)) None"
    using new(9,10) by (auto simp: split' head' seg_append nxt_def)

  \<comment> \<open>the list, backward\<close>
  have tail': "cells_tail s' = (if ys = [] then Some (Suc l) else cells_tail s)"
    using tail dl by (cases "ys = []") (auto simp: defs split_leaf_tail)
  have "seg (prv h') (if rev ys = [] then Some (Suc l) else cells_tail s) (rev ys) (Some (Suc l))"
  proof (rule seg_redirect [OF b1])
    show "distinct (rev ys)" using dl by simp
    show "\<forall>a \<in> set (rev ys).
        prv h' a = (if a = last (rev ys) then Some (Suc l) else prv h a)"
    proof
      fix a assume a: "a \<in> set (rev ys)"
      then have "a < l" "a \<noteq> c" "ys \<noteq> []" using lv dl by auto
      with old_prev [of a] nextc
      show "prv h' a = (if a = last (rev ys) then Some (Suc l) else prv h a)"
        by (auto simp: last_rev)
    qed
  qed
  moreover have "seg (prv h') (prv h c) (rev xs) None"
  proof -
    have "\<forall>a \<in> set (rev xs). prv h' a = prv h a"
    proof
      fix a assume a: "a \<in> set (rev xs)"
      then have "a < l" "a \<noteq> c" using lv dl by auto
      moreover have "next_cell (h ! c) \<noteq> Some a"
      proof
        assume "next_cell (h ! c) = Some a"
        with nextc have "ys \<noteq> []" "a = hd ys" by (auto split: if_splits)
        then have "a \<in> set ys" by simp
        with a dl show False by auto
      qed
      ultimately show "prv h' a = prv h a" using old_prev [of a] by simp
    qed
    from seg_cong [OF this] b2 show ?thesis by simp
  qed
  ultimately have l2: "seg (prv h') (cells_tail s') (rev (leaves (graft t c l))) None"
    using new(11,12) by (auto simp: split' tail' seg_append prv_def)

  \<comment> \<open>the keyframes\<close>
  have L: "L < length (keyframe_heap s)" and R: "R < length (keyframe_heap s)"
    using ok cin lk rk by (auto simp: cell_ok_def defs)
  have k1: "\<forall>a \<in> set (leaves (graft t c l)). cell_ok s' a"
  proof
    fix a assume "a \<in> set (leaves (graft t c l))"
    then consider "a \<in> set xs \<union> set ys" | "a = l" | "a = Suc l"
      using split' by auto
    then show "cell_ok s' a"
    proof cases
      case 1
      then have "cell_ok s a" "a < length (cell_heap s)"
        using ok lv split by (auto simp: defs)
      then show ?thesis unfolding s'_def by (rule cell_ok_kept)
    next
      case 2
      then show ?thesis
        using new(5,6) lk k L lo by (simp add: cell_ok_def defs)
    next
      case 3
      then show ?thesis
        using new(7,8) rk k R hi by (simp add: cell_ok_def defs)
    qed
  qed
  have kept: "\<forall>a \<in> set zs. left_keyframe (h' ! a) = left_keyframe (h ! a) \<and>
                  right_keyframe (h' ! a) = right_keyframe (h ! a)"
    if "\<forall>a \<in> set zs. a < l" for zs
    using that split_leaf_keyframes_kept [of _ s P c k] by (auto simp: defs)
  have root_of: "root_of t < l" using valid by (cases t) auto
  have ends: "left_keyframe (h' ! root_of t) = left_keyframe (h ! root_of t)"
    "right_keyframe (h' ! root_of t) = right_keyframe (h ! root_of t)"
    using split_leaf_keyframes_kept [of "root_of t" s P c k] root_of by (simp_all add: defs)
  from chain split obtain m where
    c1: "link h (left_keyframe (h ! root_of t)) xs m" and c2: "left_keyframe (h ! c) = m"
    and c3: "link h (right_keyframe (h ! c)) ys (right_keyframe (h ! root_of t))"
    by (auto simp: link_append)
  have "link h' (left_keyframe (h ! root_of t)) xs m"
    using c1 link_cong [OF kept, of xs] lv by simp
  moreover have "link h' (right_keyframe (h ! c)) ys (right_keyframe (h ! root_of t))"
    using c3 link_cong [OF kept, of ys] lv by simp
  ultimately have k2: "link h' (left_keyframe (h' ! root_of (graft t c l))) (leaves (graft t c l))
      (right_keyframe (h' ! root_of (graft t c l)))"
    using new(5-8) c2 ends by (auto simp: split' link_append)
  show ?thesis
    using t1 t2 t3 t4 l1 l2 k1 k2 unfolding cage_inv_def defs by simp
qed

subsection \<open>The descent of Cell::split\<close>

lemma Cell_min_index_Inr:
  "Cell_min_index s (Some a) = Inr lo \<longleftrightarrow>
     a < length (cell_heap s) \<and>
     (\<exists>L. left_keyframe (cell_heap s ! a) = Some L \<and> L < length (keyframe_heap s) \<and>
          lo = index (keyframe_heap s ! L))"
  by (auto simp: Cell_min_index_def deref_cell_def deref_keyframe_def and_then_def
      split: option.splits if_splits)

lemma Cell_max_index_Inr:
  "Cell_max_index s (Some a) = Inr hi \<longleftrightarrow>
     a < length (cell_heap s) \<and>
     (\<exists>R. right_keyframe (cell_heap s ! a) = Some R \<and> R < length (keyframe_heap s) \<and>
          hi = index (keyframe_heap s ! R))"
  by (auto simp: Cell_max_index_def deref_cell_def deref_keyframe_def and_then_def
      split: option.splits if_splits)

lemma and_then_eq_Inr: "and_then r f = Inr y \<longleftrightarrow> (\<exists>x. r = Inr x \<and> f x = Inr y)"
  by (cases r) simp_all

lemma deref_keyframe_Inr:
  "deref_keyframe s p = Inr kf \<longleftrightarrow>
     (\<exists>k. p = Some k \<and> k < length (keyframe_heap s) \<and> kf = keyframe_heap s ! k)"
  by (auto simp: deref_keyframe_def split: option.splits)

lemma deref_cell_Inr:
  "deref_cell s p = Inr c \<longleftrightarrow> (\<exists>a. p = Some a \<and> a < length (cell_heap s) \<and> c = cell_heap s ! a)"
  by (auto simp: deref_cell_def split: option.splits)


lemma Cell_split_step_cases:
  assumes "Cell_split_step P recurse s (Some a) kf = Inr (s', r)"
  shows "(s' = s \<and> r = None) \<or>
         (left_child (cell_heap s ! a) = None \<and> right_child (cell_heap s ! a) = None \<and>
          splits_at P s kf a s' r) \<or>
         (left_child (cell_heap s ! a) \<noteq> None \<and>
          recurse s (left_child (cell_heap s ! a)) kf = Inr (s', r)) \<or>
         (right_child (cell_heap s ! a) \<noteq> None \<and>
          recurse s (right_child (cell_heap s ! a)) kf = Inr (s', r))"
proof -
  from assms obtain cl k lo hi where
    dc: "deref_cell s (Some a) = Inr cl" and k: "deref_keyframe s kf = Inr k"
    and lo: "Cell_min_index s (Some a) = Inr lo" and hi: "Cell_max_index s (Some a) = Inr hi"
    by (auto simp: Cell_split_step_def and_then_eq_Inr)
  from dc have cl: "cl = cell_heap s ! a" by (simp add: deref_cell_Inr)
  from k obtain ka where ka: "kf = Some ka" "ka < length (keyframe_heap s)"
    "k = keyframe_heap s ! ka" by (auto simp: deref_keyframe_Inr)
  from lo obtain L where L: "left_keyframe (cell_heap s ! a) = Some L"
    "lo = index (keyframe_heap s ! L)" by (auto simp: Cell_min_index_Inr)
  from hi obtain R where R: "right_keyframe (cell_heap s ! a) = Some R"
    "hi = index (keyframe_heap s ! R)" by (auto simp: Cell_max_index_Inr)
  show ?thesis
  proof (cases "lo < index k \<and> index k < hi")
    case False
    with assms dc k lo hi show ?thesis by (simp add: Cell_split_step_def)
  next
    case inside: True
    show ?thesis
    proof (cases "left_child cl = None \<and> right_child cl = None")
      case True
      with assms dc k lo hi inside have "s' = split_leaf P s a ka" "r = kf"
        by (simp_all add: Cell_split_step_def ka)
      with True inside ka L R cl show ?thesis by (simp add: splits_at_def)
    next
      case False
      with assms dc k lo hi inside cl show ?thesis
        by (auto simp: Cell_split_step_def and_then_eq_Inr split: if_splits)
    qed
  qed
qed

lemma Cell_split_descends:
  assumes "is_tree (cell_heap s) t"
    and "Cell_split fuel P s (Some (root_of t)) kf = Inr (s', r)"
  shows "(s' = s \<and> r = None) \<or> (\<exists>c \<in> set (leaves t). splits_at P s kf c s' r)"
  using assms
proof (induction t arbitrary: fuel)
  case (Leaf a)
  then obtain recurse where "Cell_split_step P recurse s (Some a) kf = Inr (s', r)"
    by (cases fuel) auto
  from Cell_split_step_cases [OF this] Leaf.prems(1) show ?case by auto
next
  case (Node a lt rt)
  show ?case
  proof (cases fuel)
    case 0
    with Node.prems(2) have "Cell_split_step P (\<lambda>s c k. Inl OutOfFuel) s (Some a) kf = Inr (s', r)"
      by simp
    from Cell_split_step_cases [OF this] Node.prems(1) show ?thesis by auto
  next
    case (Suc f)
    with Node.prems(2) have "Cell_split_step P (Cell_split f P) s (Some a) kf = Inr (s', r)"
      by simp
    from Cell_split_step_cases [OF this] Node.prems(1)
    consider "s' = s \<and> r = None"
      | "Cell_split f P s (Some (root_of lt)) kf = Inr (s', r)"
      | "Cell_split f P s (Some (root_of rt)) kf = Inr (s', r)"
      by auto
    then show ?thesis
    proof cases
      case 1
      then show ?thesis by simp
    next
      case 2
      with Node.IH(1) [of f] Node.prems(1) show ?thesis by auto
    next
      case 3
      with Node.IH(2) [of f] Node.prems(1) show ?thesis by auto
    qed
  qed
qed

subsection \<open>Every operation keeps the invariant\<close>

lemma cage_inv_keyframes:
  assumes "cage_inv s t"
    and "cell_heap s' = cell_heap s" and "root s' = root s"
    and "cells_head s' = cells_head s" and "cells_tail s' = cells_tail s"
    and "length (keyframe_heap s) \<le> length (keyframe_heap s')"
    and "\<forall>a < length (keyframe_heap s). index (keyframe_heap s' ! a) = index (keyframe_heap s ! a)"
  shows "cage_inv s' t"
proof -
  have "cell_ok s' c" if "cell_ok s c" for c
    using that assms(2,6,7) by (fastforce simp: cell_ok_def)
  with assms show ?thesis by (simp add: cage_inv_def)
qed

lemma cage_ok_keyframes:
  assumes "cage_ok s"
    and "cell_heap s' = cell_heap s" and "root s' = root s"
    and "cells_head s' = cells_head s" and "cells_tail s' = cells_tail s"
    and "length (keyframe_heap s) \<le> length (keyframe_heap s')"
    and "\<forall>a < length (keyframe_heap s). index (keyframe_heap s' ! a) = index (keyframe_heap s ! a)"
  shows "cage_ok s'"
  using assms cage_inv_keyframes [OF _ assms(2-7)] by (auto simp: cage_ok_def)

lemma cage_ok_new: "cage_ok BoundingCage_new"
  by (simp add: cage_ok_def BoundingCage_new_def)

lemma cage_ok_clear: "cage_ok (clear s)"
  by (simp add: cage_ok_def clear_def)

lemma cage_ok_set_skeleton_vertices:
  assumes "cage_ok s"
  shows "cage_ok (snd (set_skeleton_vertices P s sv n tmpl))"
proof (cases "rows sv < 2")
  case True
  with assms show ?thesis by (simp add: set_skeleton_vertices_def)
next
  case False
  then have "(0::real) < real (rows sv) - 1" by simp
  then have "cage_inv (snd (set_skeleton_vertices P s sv n tmpl)) (Leaf (length (cell_heap s)))"
    using False
    by (simp add: set_skeleton_vertices_def Let_def split_beta with_buffer_def with_mesh_def
        Cell_new_def KeyFrame_new_def cage_inv_def nxt_def prv_def cell_ok_def nth_append)
  then show ?thesis by (auto simp: cage_ok_def)
qed

lemma cage_ok_keyframe_for_index:
  assumes "cage_ok s" and "keyframe_for_index fuel P s idx = Inr (s', it)"
  shows "cage_ok s'"
proof -
  from assms(2) have "s' = s \<or> (\<exists>x. s' = s\<lparr>keyframe_heap := keyframe_heap s @ [x]\<rparr>)"
    by (auto simp: keyframe_for_index_def and_then_eq_Inr split: if_splits)
  then show ?thesis
  proof
    assume "s' = s"
    with assms(1) show ?thesis by simp
  next
    assume "\<exists>x. s' = s\<lparr>keyframe_heap := keyframe_heap s @ [x]\<rparr>"
    then obtain x where "s' = s\<lparr>keyframe_heap := keyframe_heap s @ [x]\<rparr>" ..
    then show ?thesis
      by (intro cage_ok_keyframes [OF assms(1)]) (simp_all add: nth_append)
  qed
qed

lemma cage_ok_move_point_2d:
  assumes "cage_ok s" and "move_point_2d P s k i newpos v2 v3 = Inr (b, s')"
  shows "cage_ok s'"
proof -
  from assms(2) obtain kf a where kf: "deref_keyframe s k = Inr kf" "k = Some a"
    "a < length (keyframe_heap s)" "kf = keyframe_heap s ! a"
    by (auto simp: move_point_2d_def and_then_eq_Inr deref_keyframe_Inr)
  with assms(2) have "s' = s \<or>
      (\<exists>m. s' = s\<lparr>keyframe_heap := (keyframe_heap s)[a := (keyframe_heap s ! a)\<lparr>vertices_2d := m\<rparr>]\<rparr>)"
    by (auto simp: move_point_2d_def Let_def split: if_splits)
  then show ?thesis
  proof
    assume "s' = s"
    with assms(1) show ?thesis by simp
  next
    assume "\<exists>m. s' = s\<lparr>keyframe_heap :=
        (keyframe_heap s)[a := (keyframe_heap s ! a)\<lparr>vertices_2d := m\<rparr>]\<rparr>"
    then obtain m where s': "s' = s\<lparr>keyframe_heap :=
        (keyframe_heap s)[a := (keyframe_heap s ! a)\<lparr>vertices_2d := m\<rparr>]\<rparr>" ..
    have "\<forall>b < length (keyframe_heap s).
        index (keyframe_heap s' ! b) = index (keyframe_heap s ! b)"
      using kf(3) by (simp add: s' nth_list_update)
    with s' show ?thesis
      by (intro cage_ok_keyframes [OF assms(1)]) simp_all
  qed
qed

lemma cage_ok_split_internal:
  assumes "cage_ok s" and "split_internal fuel P s kf = Inr (s', r)"
  shows "cage_ok s'"
proof (cases "root s = None")
  case True
  with assms show ?thesis by (simp add: split_internal_def)
next
  case False
  with assms(1) obtain t where t: "cage_inv s t" by (auto simp: cage_ok_def)
  then have rt: "root s = Some (root_of t)" and tree: "is_tree (cell_heap s) t"
    by (simp_all add: cage_inv_def)
  from assms(2) False rt have "Cell_split fuel P s (Some (root_of t)) kf = Inr (s', r)"
    by (simp add: split_internal_def)
  from Cell_split_descends [OF tree this]
  show ?thesis
  proof
    assume "s' = s \<and> r = None"
    with assms(1) show ?thesis by simp
  next
    assume "\<exists>c \<in> set (leaves t). splits_at P s kf c s' r"
    then obtain c k L R where "c \<in> set (leaves t)" "k < length (keyframe_heap s)"
      "left_keyframe (cell_heap s ! c) = Some L" "right_keyframe (cell_heap s ! c) = Some R"
      "index (keyframe_heap s ! L) < index (keyframe_heap s ! k)"
      "index (keyframe_heap s ! k) < index (keyframe_heap s ! R)"
      "s' = split_leaf P s c k"
      by (auto simp: splits_at_def)
    with split_leaf_inv [OF t this(1-6), of P] show ?thesis by (auto simp: cage_ok_def)
  qed
qed

lemma cage_ok_split_iterator:
  assumes "cage_ok s" and "split_iterator fuel P s it = Inr (s', it')"
  shows "cage_ok s'"
  using assms cage_ok_split_internal [OF assms(1)]
  by (auto simp: split_iterator_def and_then_eq_Inr)

lemma cage_ok_split:
  assumes "cage_ok s" and "split fuel P s idx = Inr (s', it)"
  shows "cage_ok s'"
proof -
  from assms(2) obtain s1 it1 where k: "keyframe_for_index fuel P s idx = Inr (s1, it1)"
    and "s' = s1 \<or> split_iterator fuel P s1 it1 = Inr (s', it)"
    by (auto simp: split_def and_then_eq_Inr split: if_splits)
  with cage_ok_keyframe_for_index [OF assms(1) k] cage_ok_split_iterator show ?thesis by blast
qed

lemma cage_ok_apply_op:
  assumes "cage_ok s" and "apply_op P s x = Inr s'"
  shows "cage_ok s'"
proof (cases x)
  case (Set_skeleton_vertices sv n tmpl)
  with assms cage_ok_set_skeleton_vertices [OF assms(1)] show ?thesis by auto
next
  case (Split fuel idx)
  with assms cage_ok_split [OF assms(1)] show ?thesis by (auto simp: and_then_eq_Inr)
next
  case (Split_iterator fuel it)
  with assms cage_ok_split_iterator [OF assms(1)] show ?thesis by (auto simp: and_then_eq_Inr)
next
  case (Keyframe_for_index fuel idx)
  with assms cage_ok_keyframe_for_index [OF assms(1)] show ?thesis by (auto simp: and_then_eq_Inr)
next
  case (Move_point_2d k i newpos v2 v3)
  with assms(2) obtain r where r: "move_point_2d P s k i newpos v2 v3 = Inr r" "snd r = s'"
    by (auto simp: and_then_eq_Inr)
  then have "move_point_2d P s k i newpos v2 v3 = Inr (fst r, s')" by (cases r) simp
  with assms(1) show ?thesis by (rule cage_ok_move_point_2d)
next
  case Clear
  with assms cage_ok_clear show ?thesis by auto
qed

lemma cage_ok_run_from: "cage_ok s \<Longrightarrow> run_from P s ops = Inr s' \<Longrightarrow> cage_ok s'"
proof (induction ops arbitrary: s)
  case Nil
  then show ?case by simp
next
  case (Cons x xs)
  from Cons.prems(2) obtain s1 where "apply_op P s x = Inr s1" "run_from P s1 xs = Inr s'"
    by (auto simp: and_then_eq_Inr)
  with Cons.IH cage_ok_apply_op [OF Cons.prems(1)] show ?case by blast
qed

lemma cage_ok_run: "run P ops = Inr s \<Longrightarrow> cage_ok s"
  using cage_ok_run_from [OF cage_ok_new] by (simp add: run_def)

subsection \<open>What the invariant says about the traversals\<close>

lemma collect_cells_seg:
  "seg (nxt (cell_heap s)) p cs None \<Longrightarrow> \<forall>c \<in> set cs. c < length (cell_heap s) \<Longrightarrow>
   length cs \<le> fuel \<Longrightarrow>
   collect_cells fuel s (CellIterator p) = Inr (map (\<lambda>c. CellIterator (Some c)) cs)"
proof (induction cs arbitrary: p fuel)
  case Nil
  then show ?case by (cases fuel) (simp_all add: Cells_end_def)
next
  case (Cons c cs)
  from Cons.prems(3) obtain f where f: "fuel = Suc f" "length cs \<le> f"
    by (cases fuel) auto
  from Cons.prems(1) have p: "p = Some c" and rest: "seg (nxt (cell_heap s)) (nxt (cell_heap s) c) cs None"
    by simp_all
  have step: "CellIterator_incr s (CellIterator p) = Inr (CellIterator (nxt (cell_heap s) c))"
    using p Cons.prems(2) by (simp add: CellIterator_incr_def deref_cell_def nxt_def)
  have "collect_cells f s (CellIterator (nxt (cell_heap s) c)) =
      Inr (map (\<lambda>c. CellIterator (Some c)) cs)"
    using rest Cons.prems(2) f(2) by (intro Cons.IH) simp_all
  with step p f(1) show ?case by (simp add: Cells_end_def)
qed

lemma collect_cells_backward_seg:
  "seg (prv (cell_heap s)) p cs None \<Longrightarrow> \<forall>c \<in> set cs. c < length (cell_heap s) \<Longrightarrow>
   length cs \<le> fuel \<Longrightarrow>
   collect_cells_backward fuel s (CellIterator p) = Inr (map (\<lambda>c. CellIterator (Some c)) cs)"
proof (induction cs arbitrary: p fuel)
  case Nil
  then show ?case by (cases fuel) (simp_all add: Cells_rend_def)
next
  case (Cons c cs)
  from Cons.prems(3) obtain f where f: "fuel = Suc f" "length cs \<le> f"
    by (cases fuel) auto
  from Cons.prems(1) have p: "p = Some c" and rest: "seg (prv (cell_heap s)) (prv (cell_heap s) c) cs None"
    by simp_all
  have step: "CellIterator_decr s (CellIterator p) = Inr (CellIterator (prv (cell_heap s) c))"
    using p Cons.prems(2) by (simp add: CellIterator_decr_def deref_cell_def prv_def)
  have "collect_cells_backward f s (CellIterator (prv (cell_heap s) c)) =
      Inr (map (\<lambda>c. CellIterator (Some c)) cs)"
    using rest Cons.prems(2) f(2) by (intro Cons.IH) simp_all
  with step p f(1) show ?case by (simp add: Cells_rend_def)
qed


lemma cell_ok_bounds:
  assumes "cell_ok s c" and "c < length (cell_heap s)"
  shows "Cell_min_index s (Some c) = Inr (kf_index s (left_keyframe (cell_heap s ! c)))"
    and "Cell_max_index s (Some c) = Inr (kf_index s (right_keyframe (cell_heap s ! c)))"
    and "kf_index s (left_keyframe (cell_heap s ! c)) < kf_index s (right_keyframe (cell_heap s ! c))"
  using assms by (auto simp: cell_ok_def Cell_min_index_Inr Cell_max_index_Inr kf_index_def)

lemma link_increasing:
  "link (cell_heap s) p cs q \<Longrightarrow> \<forall>c \<in> set cs. cell_ok s c \<Longrightarrow>
   sorted_wrt (<) (map (\<lambda>c. kf_index s (left_keyframe (cell_heap s ! c))) cs) \<and>
   (\<forall>c \<in> set cs. kf_index s p \<le> kf_index s (left_keyframe (cell_heap s ! c)))"
proof (induction cs arbitrary: p)
  case Nil
  then show ?case by simp
next
  case (Cons c cs)
  let ?lo = "\<lambda>c. kf_index s (left_keyframe (cell_heap s ! c))"
  from Cons.prems have p: "left_keyframe (cell_heap s ! c) = p"
    and rest: "link (cell_heap s) (right_keyframe (cell_heap s ! c)) cs q"
    and ok: "cell_ok s c" "\<forall>d \<in> set cs. cell_ok s d"
    by simp_all
  from ok(1) have lt: "?lo c < kf_index s (right_keyframe (cell_heap s ! c))"
    by (auto simp: cell_ok_def kf_index_def)
  from Cons.IH [OF rest ok(2)] have srt: "sorted_wrt (<) (map ?lo cs)"
    and ge: "\<forall>d \<in> set cs. kf_index s (right_keyframe (cell_heap s ! c)) \<le> ?lo d"
    by simp_all
  from lt ge have "\<forall>d \<in> set cs. ?lo c < ?lo d" by fastforce
  with srt p show ?case by auto
qed

lemma cage_ok_ordered:
  assumes "cage_ok s"
  shows "\<exists>cs los his.
      (\<forall>fuel \<ge> length cs.
         collect_cells fuel s (Cells_begin s) = Inr cs \<and>
         collect_cells_backward fuel s (Cells_rbegin s) = Inr (rev cs)) \<and>
      map (\<lambda>it. Cell_min_index s (cell it)) cs = map Inr los \<and>
      map (\<lambda>it. Cell_max_index s (cell it)) cs = map Inr his \<and>
      sorted_wrt (<) los \<and> list_all2 (<) los his"
proof (cases "\<exists>t. cage_inv s t")
  case False
  with assms have "cells_head s = None" "cells_tail s = None" by (auto simp: cage_ok_def)
  then have "\<forall>fuel \<ge> length ([] :: CellIterator list).
      collect_cells fuel s (Cells_begin s) = Inr [] \<and>
      collect_cells_backward fuel s (Cells_rbegin s) = Inr (rev [])"
    using collect_cells_seg [of s None "[]"] collect_cells_backward_seg [of s None "[]"]
    by (simp add: Cells_begin_def Cells_rbegin_def)
  then show ?thesis by (intro exI [of _ "[]"]) simp
next
  case True
  then obtain t where t: "cage_inv s t" ..
  define as where "as = leaves t"
  define cs where "cs = map (\<lambda>c. CellIterator (Some c)) as"
  define los where "los = map (\<lambda>c. kf_index s (left_keyframe (cell_heap s ! c))) as"
  define his where "his = map (\<lambda>c. kf_index s (right_keyframe (cell_heap s ! c))) as"
  from t have fwd: "seg (nxt (cell_heap s)) (cells_head s) as None"
    and bwd: "seg (prv (cell_heap s)) (cells_tail s) (rev as) None"
    and ok: "\<forall>c \<in> set as. cell_ok s c"
    and chain: "link (cell_heap s) (left_keyframe (cell_heap s ! root_of t)) as
        (right_keyframe (cell_heap s ! root_of t))"
    and valid: "\<forall>c \<in> set as. c < length (cell_heap s)"
    using leaves_subset_nodes [of t] by (auto simp: cage_inv_def as_def)
  have 1: "\<forall>fuel \<ge> length cs.
      collect_cells fuel s (Cells_begin s) = Inr cs \<and>
      collect_cells_backward fuel s (Cells_rbegin s) = Inr (rev cs)"
    using collect_cells_seg [OF fwd valid] collect_cells_backward_seg [OF bwd] valid
    by (simp add: Cells_begin_def Cells_rbegin_def cs_def rev_map)
  have 2: "map (\<lambda>it. Cell_min_index s (cell it)) cs = map Inr los"
    using ok valid cell_ok_bounds(1) by (simp add: cs_def los_def comp_def)
  have 3: "map (\<lambda>it. Cell_max_index s (cell it)) cs = map Inr his"
    using ok valid cell_ok_bounds(2) by (simp add: cs_def his_def comp_def)
  have 4: "sorted_wrt (<) los"
    using link_increasing [OF chain ok] by (simp add: los_def)
  have 5: "list_all2 (<) los his"
    using ok valid cell_ok_bounds(3) by (simp add: los_def his_def list_all2_conv_all_nth)
  from 1 2 3 4 5 show ?thesis by blast
qed


text \<open>
  C5. In every state that a list of operations reaches from the freshly constructed cage,
  the traversal of the leaf list from \<^verbatim>\<open>cells.begin()\<close> to \<^verbatim>\<open>cells.end()\<close> ends (any fuel
  from the number of leaves on is enough) and yields cells whose left keyframe indices are
  strictly increasing, each cell with its left index strictly below its right index; the
  traversal from \<^verbatim>\<open>cells.rbegin()\<close> with \<^verbatim>\<open>operator--\<close> yields the same cells in reverse.
\<close>

theorem leaf_list_ordered:
  assumes "run P ops = Inr s"
  shows "\<exists>cs los his.
      (\<forall>fuel \<ge> length cs.
         collect_cells fuel s (Cells_begin s) = Inr cs \<and>
         collect_cells_backward fuel s (Cells_rbegin s) = Inr (rev cs)) \<and>
      map (\<lambda>it. Cell_min_index s (cell it)) cs = map Inr los \<and>
      map (\<lambda>it. Cell_max_index s (cell it)) cs = map Inr his \<and>
      sorted_wrt (<) los \<and> list_all2 (<) los his"
  using cage_ok_run [OF assms] by (rule cage_ok_ordered)

theorem leaf_list_ordered_witness:
  "\<exists>s. run P_example ops_example = Inr s \<and>
     collect_cells 3 s (Cells_begin s) =
       Inr [CellIterator (Some 3), CellIterator (Some 4), CellIterator (Some 2)] \<and>
     collect_cells_backward 3 s (Cells_rbegin s) =
       Inr [CellIterator (Some 2), CellIterator (Some 4), CellIterator (Some 3)] \<and>
     map (\<lambda>c. Cell_min_index s (Some c)) [3, 4, 2] = [Inr 0, Inr 1, Inr 2] \<and>
     map (\<lambda>c. Cell_max_index s (Some c)) [3, 4, 2] = [Inr 1, Inr 2, Inr 4]"
proof -
  have "case run P_example ops_example of
      Inl e \<Rightarrow> False
    | Inr s \<Rightarrow>
        collect_cells 3 s (Cells_begin s) =
          Inr [CellIterator (Some 3), CellIterator (Some 4), CellIterator (Some 2)] \<and>
        collect_cells_backward 3 s (Cells_rbegin s) =
          Inr [CellIterator (Some 2), CellIterator (Some 4), CellIterator (Some 3)] \<and>
        map (\<lambda>c. Cell_min_index s (Some c)) [3, 4, 2] = [Inr 0, Inr 1, Inr 2] \<and>
        map (\<lambda>c. Cell_max_index s (Some c)) [3, 4, 2] = [Inr 1, Inr 2, Inr 4]"
    by code_simp
  then obtain s where s: "run P_example ops_example = Inr s"
    and vals: "collect_cells 3 s (Cells_begin s) =
          Inr [CellIterator (Some 3), CellIterator (Some 4), CellIterator (Some 2)]"
      "collect_cells_backward 3 s (Cells_rbegin s) =
          Inr [CellIterator (Some 2), CellIterator (Some 4), CellIterator (Some 3)]"
      "map (\<lambda>c. Cell_min_index s (Some c)) [3, 4, 2] = [Inr 0, Inr 1, Inr 2]"
      "map (\<lambda>c. Cell_max_index s (Some c)) [3, 4, 2] = [Inr 1, Inr 2, Inr 4]"
    by (cases "run P_example ops_example") simp_all
  show ?thesis
    using leaf_list_ordered [OF s] s vals by - (rule exI [of _ s], simp)
qed

subsection \<open>The index bounds of a reachable cage\<close>

text \<open>
  In every state that a list of operations reaches, a cage with a root passes the two
  assertions of \<^verbatim>\<open>min_index()\<close> and \<^verbatim>\<open>max_index()\<close>, and its lower bound is strictly below
  its upper bound.
\<close>

lemma link_end: "link h p cs q \<Longrightarrow> cs \<noteq> [] \<Longrightarrow> right_keyframe (h ! last cs) = q"
  by (induction cs arbitrary: p) (auto split: if_splits)

lemma link_start: "link h p cs q \<Longrightarrow> cs \<noteq> [] \<Longrightarrow> left_keyframe (h ! hd cs) = p"
  by (cases cs) auto

lemma cage_inv_bounds:
  assumes "cage_inv s t"
  shows "\<exists>lo hi. min_index s = Inr lo \<and> max_index s = Inr hi \<and> lo < hi"
proof -
  define h where "h = cell_heap s"
  define cs where "cs = leaves t"
  let ?lo = "\<lambda>c. kf_index s (left_keyframe (h ! c))"
  let ?hi = "\<lambda>c. kf_index s (right_keyframe (h ! c))"
  from assms have root: "root s = Some (root_of t)"
    and fwd: "seg (nxt h) (cells_head s) cs None"
    and bwd: "seg (prv h) (cells_tail s) (rev cs) None"
    and ok: "\<forall>c \<in> set cs. cell_ok s c"
    and chain: "link h (left_keyframe (h ! root_of t)) cs (right_keyframe (h ! root_of t))"
    and valid: "\<forall>c \<in> set (nodes t). c < length h"
    by (simp_all add: cage_inv_def h_def cs_def)
  have ne: "cs \<noteq> []" by (simp add: cs_def)
  have top: "root_of t < length h" using valid by (cases t) auto
  have lv: "\<forall>c \<in> set cs. c < length h"
    using valid leaves_subset_nodes [of t] by (auto simp: cs_def)
  from seg_start [OF fwd ne] have head: "cells_head s = Some (hd cs)" .
  from seg_start [OF bwd] ne have tail: "cells_tail s = Some (last cs)" by (simp add: hd_rev)
  have hd_in: "hd cs \<in> set cs" and last_in: "last cs \<in> set cs" using ne by simp_all
  have l: "left_keyframe (h ! root_of t) = left_keyframe (h ! hd cs)"
    using link_start [OF chain ne] by simp
  have r: "right_keyframe (h ! root_of t) = right_keyframe (h ! last cs)"
    using link_end [OF chain ne] by simp
  have hmin: "Cell_min_index s (Some (hd cs)) = Inr (?lo (hd cs))"
    using cell_ok_bounds(1) [of s "hd cs"] ok lv hd_in by (simp add: h_def)
  have tmax: "Cell_max_index s (Some (last cs)) = Inr (?hi (last cs))"
    using cell_ok_bounds(2) [of s "last cs"] ok lv last_in by (simp add: h_def)
  have rmin: "Cell_min_index s (Some (root_of t)) = Inr (?lo (hd cs))"
    using hmin top hd_in lv l by (auto simp: Cell_min_index_Inr h_def kf_index_def)
  have rmax: "Cell_max_index s (Some (root_of t)) = Inr (?hi (last cs))"
    using tmax top last_in lv r by (auto simp: Cell_max_index_Inr h_def kf_index_def)
  have "?lo (hd cs) \<le> ?lo (last cs)"
    using link_increasing [OF chain [unfolded h_def] ok] last_in l by (simp add: h_def)
  moreover have "?lo (last cs) < ?hi (last cs)"
    using cell_ok_bounds(3) [of s "last cs"] ok lv last_in by (simp add: h_def)
  ultimately have "?lo (hd cs) < ?hi (last cs)" by simp
  moreover have "min_index s = Inr (?lo (hd cs))"
    using root head hmin rmin by (simp add: min_index_def)
  moreover have "max_index s = Inr (?hi (last cs))"
    using root tail tmax rmax by (simp add: max_index_def)
  ultimately show ?thesis by blast
qed

lemma run_bounds:
  assumes "run P ops = Inr s" and "root s \<noteq> None"
  shows "\<exists>lo hi. min_index s = Inr lo \<and> max_index s = Inr hi \<and> lo < hi"
  using cage_ok_run [OF assms(1)] assms(2) cage_inv_bounds by (auto simp: cage_ok_def)

end
